theory Spec2Isabelle
  imports Complex_Main "HOL-Library.Sublist"
begin

section \<open>The DRSA engine of \<^verbatim>\<open>src/imo_drsa/drsa.py\<close>\<close>

text \<open>
  The objective matrix is a list of rows over a totally ordered value type (the spec's
  real-valued, gain-type criteria; a NumPy \<^verbatim>\<open>nan\<close>, which compares false with
  every value, is not such a value). Criteria are Python integers used as NumPy column
  indices, so a negative index counts from the last column. Decision classes and
  thresholds are integers. Every \<^verbatim>\<open>assert\<close>, every index out of range and
  every explicit \<^verbatim>\<open>raise\<close> of the class is a value \<open>Inl\<close> of the result.
\<close>

subsection \<open>Errors and the engine state\<close>

datatype error =
    AssertionError string
  | IndexError
  | KeyError
  | ValueError string
  | ZeroDivisionError

record 'a DRSA =
  is_fit :: bool
  F_pareto :: "'a list list"
  decision_attribute :: "int list"
  criteria :: "int list"
  N :: nat
  m :: int
  direction :: string

text \<open>\<^verbatim>\<open>__init__\<close> only sets \<^verbatim>\<open>is_fit = False\<close>; the other attributes do not exist
  yet, and no method reads them before its assertion has failed.\<close>

definition DRSA_init :: "'a DRSA" where
  "DRSA_init = \<lparr>is_fit = False, F_pareto = [], decision_attribute = [], criteria = [],
     N = 0, m = 0, direction = []\<rparr>"

definition not_fit :: error where
  "not_fit = AssertionError ''DRSA has not been fit.''"

text \<open>\<^verbatim>\<open>decision_attribute.max()\<close>: NumPy raises ValueError on an empty array.\<close>

definition np_max :: "int list \<Rightarrow> error + int" where
  "np_max ds = (case ds of [] \<Rightarrow> Inl (ValueError ''zero-size array'')
                | d # rest \<Rightarrow> Inr (fold max rest d))"

definition fit :: "'a DRSA \<Rightarrow> 'a list list option \<Rightarrow> int list option \<Rightarrow> int list option
    \<Rightarrow> string \<Rightarrow> error + 'a DRSA" where
  "fit self F_pareto_gain_type crit dec dir =
     (case F_pareto_gain_type of
        None \<Rightarrow> Inl (AssertionError ''F_pareto_gain_type is None'')
      | Some F \<Rightarrow>
     (case crit of
        None \<Rightarrow> Inl (AssertionError ''criteria is None'')
      | Some c \<Rightarrow>
     (case dec of
        None \<Rightarrow> Inl (AssertionError ''decision_attribute is None'')
      | Some d \<Rightarrow>
     (case np_max d of
        Inl err \<Rightarrow> Inl err
      | Inr mx \<Rightarrow>
          Inr (self\<lparr>F_pareto := F, decision_attribute := d, criteria := c,
                 N := length F, m := mx, direction := dir, is_fit := True\<rparr>)))))"

subsection \<open>NumPy indexing and masks\<close>

text \<open>The number of columns of the matrix (\<^verbatim>\<open>shape[1]\<close>), read from its first row.\<close>

definition n_var :: "'a list list \<Rightarrow> nat" where
  "n_var F = (case F of [] \<Rightarrow> 0 | row # _ \<Rightarrow> length row)"

text \<open>An index \<open>idx\<close> is accepted on an axis of size \<open>n\<close> iff \<open>-n \<le> idx < n\<close>;
  a negative one counts from the end.\<close>

definition valid_idx :: "'a list list \<Rightarrow> int \<Rightarrow> bool" where
  "valid_idx F idx \<longleftrightarrow> - int (n_var F) \<le> idx \<and> idx < int (n_var F)"

definition norm_idx :: "'a list list \<Rightarrow> int \<Rightarrow> nat" where
  "norm_idx F idx = nat (if idx < 0 then idx + int (n_var F) else idx)"

text \<open>\<^verbatim>\<open>F[:, idx]\<close>\<close>

definition column :: "'a list list \<Rightarrow> int \<Rightarrow> error + 'a list" where
  "column F idx =
     (if valid_idx F idx then Inr (map (\<lambda>row. row ! norm_idx F idx) F) else Inl IndexError)"

text \<open>\<^verbatim>\<open>F[x, idx]\<close> for a row \<open>x\<close> in range.\<close>

definition item :: "'a list list \<Rightarrow> nat \<Rightarrow> int \<Rightarrow> 'a" where
  "item F x idx = F ! x ! norm_idx F idx"

text \<open>\<^verbatim>\<open>cmp(vals[:, None], vals[None, :])\<close>: entry \<open>[y, x]\<close> compares \<open>vals[y]\<close> with
  \<open>vals[x]\<close>.\<close>

definition outer :: "('a \<Rightarrow> 'a \<Rightarrow> bool) \<Rightarrow> 'a list \<Rightarrow> bool list list" where
  "outer cmp vals = map (\<lambda>vy. map (\<lambda>vx. cmp vy vx) vals) vals"

definition and2 :: "bool list list \<Rightarrow> bool list list \<Rightarrow> bool list list" where
  "and2 A B = map2 (map2 (\<and>)) A B"

definition ones2 :: "nat \<Rightarrow> bool list list" where
  "ones2 n = replicate n (replicate n True)"

text \<open>\<^verbatim>\<open>op(M, v[:, None])\<close>: row \<open>y\<close> of \<open>M\<close> is combined with the scalar \<open>v[y]\<close>.\<close>

definition with_rows :: "(bool \<Rightarrow> bool \<Rightarrow> bool) \<Rightarrow> bool list list \<Rightarrow> bool list \<Rightarrow> bool list list" where
  "with_rows f M v = map2 (\<lambda>row b. map (\<lambda>c. f c b) row) M v"

text \<open>\<^verbatim>\<open>np.all(M, axis=0)\<close> and \<^verbatim>\<open>np.any(M, axis=0)\<close> on a matrix with \<open>n\<close> columns.\<close>

definition all_axis0 :: "nat \<Rightarrow> bool list list \<Rightarrow> bool list" where
  "all_axis0 n M = map (\<lambda>x. list_all (\<lambda>row. row ! x) M) [0..<n]"

definition any_axis0 :: "nat \<Rightarrow> bool list list \<Rightarrow> bool list" where
  "any_axis0 n M = map (\<lambda>x. list_ex (\<lambda>row. row ! x) M) [0..<n]"

subsection \<open>Dominance cones\<close>

text \<open>The loop \<^verbatim>\<open>for idx in criteria: vals = F[:, idx]; mask &= cmp(...)\<close>.\<close>

fun cone_loop :: "('a \<Rightarrow> 'a \<Rightarrow> bool) \<Rightarrow> 'a list list \<Rightarrow> int list \<Rightarrow> bool list list
    \<Rightarrow> error + bool list list" where
  "cone_loop cmp F [] msk = Inr msk"
| "cone_loop cmp F (idx # rest) msk =
     (case column F idx of
        Inl err \<Rightarrow> Inl err
      | Inr vals \<Rightarrow> cone_loop cmp F rest (and2 msk (outer cmp vals)))"

definition positive_cone :: "('a::linorder) DRSA \<Rightarrow> int list \<Rightarrow> error + bool list list" where
  "positive_cone e P =
     (if \<not> is_fit e then Inl not_fit
      else cone_loop (\<lambda>a b. a \<ge> b) (F_pareto e) P (ones2 (N e)))"

definition negative_cone :: "('a::linorder) DRSA \<Rightarrow> int list \<Rightarrow> error + bool list list" where
  "negative_cone e P =
     (if \<not> is_fit e then Inl not_fit
      else cone_loop (\<lambda>a b. a \<le> b) (F_pareto e) P (ones2 (N e)))"

subsection \<open>Rough approximations\<close>

definition not2 :: "bool list list \<Rightarrow> bool list list" where
  "not2 M = map (map Not) M"

definition lower_approx_up :: "('a::linorder) DRSA \<Rightarrow> int list \<Rightarrow> int \<Rightarrow> error + bool list" where
  "lower_approx_up e P threshold =
     (if \<not> is_fit e then Inl not_fit
      else case positive_cone e P of
        Inl err \<Rightarrow> Inl err
      | Inr cone \<Rightarrow> Inr (all_axis0 (N e)
          (with_rows (\<or>) (not2 cone) (map (\<lambda>d. d \<ge> threshold) (decision_attribute e)))))"

definition upper_approx_up :: "('a::linorder) DRSA \<Rightarrow> int list \<Rightarrow> int \<Rightarrow> error + bool list" where
  "upper_approx_up e P threshold =
     (if \<not> is_fit e then Inl not_fit
      else case negative_cone e P of
        Inl err \<Rightarrow> Inl err
      | Inr cone \<Rightarrow> Inr (any_axis0 (N e)
          (with_rows (\<and>) cone (map (\<lambda>d. d \<ge> threshold) (decision_attribute e)))))"

definition lower_approx_down :: "('a::linorder) DRSA \<Rightarrow> int list \<Rightarrow> int \<Rightarrow> error + bool list" where
  "lower_approx_down e P threshold =
     (if \<not> is_fit e then Inl not_fit
      else case negative_cone e P of
        Inl err \<Rightarrow> Inl err
      | Inr cone \<Rightarrow> Inr (all_axis0 (N e)
          (with_rows (\<or>) (not2 cone) (map (\<lambda>d. d \<le> threshold) (decision_attribute e)))))"

definition upper_approx_down :: "('a::linorder) DRSA \<Rightarrow> int list \<Rightarrow> int \<Rightarrow> error + bool list" where
  "upper_approx_down e P threshold =
     (if \<not> is_fit e then Inl not_fit
      else case positive_cone e P of
        Inl err \<Rightarrow> Inl err
      | Inr cone \<Rightarrow> Inr (any_axis0 (N e)
          (with_rows (\<and>) cone (map (\<lambda>d. d \<le> threshold) (decision_attribute e)))))"

subsection \<open>Quality of approximation\<close>

text \<open>One pass of the loop over \<open>t\<close> in \<^verbatim>\<open>range(2, m + 1)\<close>:
  \<^verbatim>\<open>boundary = upper & ~lower; consistent_mask &= ~boundary\<close>.\<close>

fun quality_loop :: "('a::linorder) DRSA \<Rightarrow> int list \<Rightarrow> int list \<Rightarrow> bool list \<Rightarrow> error + bool list" where
  "quality_loop e P [] consistent_mask = Inr consistent_mask"
| "quality_loop e P (t # ts) consistent_mask =
     (case (if direction e = ''up'' then lower_approx_up e P t else lower_approx_down e P t) of
        Inl err \<Rightarrow> Inl err
      | Inr lower \<Rightarrow>
     (case (if direction e = ''up'' then upper_approx_up e P t else upper_approx_down e P t) of
        Inl err \<Rightarrow> Inl err
      | Inr upper \<Rightarrow>
          quality_loop e P ts
            (map2 (\<lambda>c b. c \<and> \<not> b) consistent_mask (map2 (\<lambda>u l. u \<and> \<not> l) upper lower))))"

text \<open>\<^verbatim>\<open>float(consistent_mask.sum()) / self.N\<close>: a Python float divided by the Python
  integer \<open>N\<close>, which raises ZeroDivisionError for \<open>N = 0\<close>. The quotient of two
  counts is kept exact, as a rational.\<close>

definition quality :: "('a::linorder) DRSA \<Rightarrow> int list \<Rightarrow> error + rat" where
  "quality e P =
     (if \<not> is_fit e then Inl not_fit
      else case quality_loop e P [2..m e] (replicate (N e) True) of
        Inl err \<Rightarrow> Inl err
      | Inr consistent_mask \<Rightarrow>
          if N e = 0 then Inl ZeroDivisionError
          else Inr (of_nat (length (filter id consistent_mask)) / of_nat (N e)))"

subsection \<open>Reducts and core\<close>

text \<open>\<^verbatim>\<open>itertools.combinations(xs, r)\<close>: the sub-tuples of length \<open>r\<close>, positions in
  lexicographic order.\<close>

fun combinations :: "'b list \<Rightarrow> nat \<Rightarrow> 'b list list" where
  "combinations xs 0 = [[]]"
| "combinations [] (Suc r) = []"
| "combinations (x # xs) (Suc r) =
     map ((#) x) (combinations xs r) @ combinations xs (Suc r)"

text \<open>The inner loop \<^verbatim>\<open>for subset in combinations(self.criteria, r)\<close>.\<close>

fun subset_loop :: "('a::linorder) DRSA \<Rightarrow> rat \<Rightarrow> int list list \<Rightarrow> int list list
    \<Rightarrow> error + int list list" where
  "subset_loop e full_quality [] reducts = Inr reducts"
| "subset_loop e full_quality (sub # rest) reducts =
     (case quality e sub of
        Inl err \<Rightarrow> Inl err
      | Inr q \<Rightarrow>
          if q = full_quality then
            (if \<not> list_ex (\<lambda>red. set red \<subseteq> set sub) reducts
             then subset_loop e full_quality rest (reducts @ [sub])
             else subset_loop e full_quality rest reducts)
          else subset_loop e full_quality rest reducts)"

text \<open>The outer loop \<^verbatim>\<open>for r in range(1, len(self.criteria) + 1)\<close> with its
  \<^verbatim>\<open>if reducts: break\<close>.\<close>

fun size_loop :: "('a::linorder) DRSA \<Rightarrow> rat \<Rightarrow> nat list \<Rightarrow> int list list
    \<Rightarrow> error + int list list" where
  "size_loop e full_quality [] reducts = Inr reducts"
| "size_loop e full_quality (r # rs) reducts =
     (case subset_loop e full_quality (combinations (criteria e) r) reducts of
        Inl err \<Rightarrow> Inl err
      | Inr reducts' \<Rightarrow>
          if reducts' \<noteq> [] then Inr reducts'
          else size_loop e full_quality rs reducts')"

definition find_reducts :: "('a::linorder) DRSA \<Rightarrow> error + int list list" where
  "find_reducts e =
     (if \<not> is_fit e then Inl not_fit
      else case quality e (criteria e) of
        Inl err \<Rightarrow> Inl err
      | Inr full_quality \<Rightarrow>
     (case size_loop e full_quality [1..<length (criteria e) + 1] [] of
        Inl err \<Rightarrow> Inl err
      | Inr reducts \<Rightarrow>
          if length reducts = 0 then Inr [criteria e] else Inr reducts))"

text \<open>\<^verbatim>\<open>core(reducts=None)\<close>: the argument is optional, and
  \<^verbatim>\<open>reducts = reducts or self.find_reducts()\<close> replaces every falsy argument, the
  empty list as well as \<^verbatim>\<open>None\<close>.\<close>

definition core :: "('a::linorder) DRSA \<Rightarrow> int list list option \<Rightarrow> error + int list" where
  "core e reducts =
     (if \<not> is_fit e then Inl not_fit
      else case (case reducts of
                   None \<Rightarrow> find_reducts e
                 | Some rs \<Rightarrow> if rs = [] then find_reducts e else Inr rs) of
        Inl err \<Rightarrow> Inl err
      | Inr rs \<Rightarrow>
     (case rs of
        [] \<Rightarrow> Inr []
      | red0 # rest \<Rightarrow>
          Inr (sorted_list_of_set (fold (\<lambda>red core_set. core_set \<inter> set red) rest (set red0)))))"

subsection \<open>Decision rules\<close>

text \<open>A profile is a Python dict from criterion index to value: keys are unique and keep
  their insertion order. A rule is the source's 7-tuple
  \<^verbatim>\<open>(profile, concl, support, confidence, kind, direction, desc)\<close>. A NumPy mean is
  a rational, or \<open>None\<close> for the \<^verbatim>\<open>nan\<close> of an empty array.\<close>

type_synonym 'a profile = "(int \<times> 'a) list"

type_synonym 'a rule =
  "'a profile \<times> string \<times> rat option \<times> rat option \<times> string \<times> string \<times> string"

definition rule_profile :: "'a rule \<Rightarrow> 'a profile" where
  "rule_profile r = fst r"

definition rule_concl :: "'a rule \<Rightarrow> string" where
  "rule_concl r = fst (snd r)"

definition rule_desc :: "'a rule \<Rightarrow> string" where
  "rule_desc r = snd (snd (snd (snd (snd (snd r)))))"

fun dict_set :: "'k \<Rightarrow> 'v \<Rightarrow> ('k \<times> 'v) list \<Rightarrow> ('k \<times> 'v) list" where
  "dict_set k v [] = [(k, v)]"
| "dict_set k v ((k', v') # ps) =
     (if k' = k then (k', v) # ps else (k', v') # dict_set k v ps)"

text \<open>Equality of two dicts does not look at the order of their keys.\<close>

definition dict_eq :: "('k \<times> 'v) list \<Rightarrow> ('k \<times> 'v) list \<Rightarrow> bool" where
  "dict_eq p q \<longleftrightarrow> set p = set q"

text \<open>\<^verbatim>\<open>r2 != r1\<close> on rule tuples.\<close>

definition rule_ne :: "'a rule \<Rightarrow> 'a rule \<Rightarrow> bool" where
  "rule_ne r2 r1 \<longleftrightarrow> \<not> (dict_eq (fst r2) (fst r1) \<and> snd r2 = snd r1)"

definition np_mean :: "bool list \<Rightarrow> rat option" where
  "np_mean bs = (if bs = [] then None
                 else Some (of_nat (length (filter id bs)) / of_nat (length bs)))"

text \<open>\<^verbatim>\<open>str(n)\<close> for a Python integer.\<close>

fun str_nat :: "nat \<Rightarrow> string" where
  "str_nat n = (if n < 10 then [char_of (48 + n)]
                else str_nat (n div 10) @ [char_of (48 + n mod 10)])"

declare str_nat.simps [simp del]

definition str_int :: "int \<Rightarrow> string" where
  "str_int i = (if i < 0 then CHR ''-'' # str_nat (nat (- i)) else str_nat (nat i))"

text \<open>\<^verbatim>\<open>kind.upper()\<close> on ASCII letters.\<close>

definition str_upper :: "string \<Rightarrow> string" where
  "str_upper s = map (\<lambda>c. if 97 \<le> (of_char c :: nat) \<and> (of_char c :: nat) \<le> 122
                       then char_of ((of_char c :: nat) - 32) else c) s"

fun join :: "string \<Rightarrow> string list \<Rightarrow> string" where
  "join sep [] = []"
| "join sep [s] = s"
| "join sep (s # t # rest) = s @ sep @ join sep (t # rest)"

text \<open>The description string. How NumPy prints a value (\<^verbatim>\<open>{-val}\<close>) and how a float is
  printed with two decimals (\<^verbatim>\<open>{support:.2f}\<close>) are parameters \<open>neg_str\<close> and
  \<open>str_2f\<close>; nothing below depends on what they print.\<close>

definition make_rule_description :: "('a \<Rightarrow> string) \<Rightarrow> (rat option \<Rightarrow> string) \<Rightarrow> ('a::linorder) DRSA
    \<Rightarrow> 'a profile \<Rightarrow> string \<Rightarrow> rat option \<Rightarrow> rat option \<Rightarrow> string \<Rightarrow> error + string" where
  "make_rule_description neg_str str_2f e prof conclusion support confidence kind =
     (if \<not> is_fit e then Inl not_fit
      else
        let op = (if direction e = ''up'' then ''<='' else ''>='');
            conds = map (\<lambda>(idx, val).
                      ''f_'' @ str_int (idx + 1) @ ''(x) '' @ op @ '' '' @ neg_str val) prof;
            premise = join '' AND '' conds
        in Inr (''['' @ str_upper kind @ ''] IF '' @ premise @ '' THEN '' @ conclusion
                @ '' (support='' @ str_2f support @ '', confidence='' @ str_2f confidence
                @ '')''))"

text \<open>The loop \<^verbatim>\<open>for i, val in profile.items(): mask &= cmp(F[:, i], val)\<close>.\<close>

fun profile_mask :: "('a \<Rightarrow> 'a \<Rightarrow> bool) \<Rightarrow> 'a list list \<Rightarrow> 'a profile \<Rightarrow> bool list
    \<Rightarrow> error + bool list" where
  "profile_mask cmp F [] msk = Inr msk"
| "profile_mask cmp F ((i, val) # rest) msk =
     (case column F i of
        Inl err \<Rightarrow> Inl err
      | Inr vals \<Rightarrow> profile_mask cmp F rest (map2 (\<and>) msk (map (\<lambda>v. cmp v val) vals)))"

definition is_robust :: "('a::linorder) DRSA \<Rightarrow> 'a rule \<Rightarrow> error + bool" where
  "is_robust e rule =
     (if \<not> is_fit e then Inl not_fit
      else
        let cmp_op = (if direction e = ''up'' then (\<lambda>a b. a \<ge> b) else (\<lambda>a b. a \<le> b)) in
        case profile_mask cmp_op (F_pareto e) (rule_profile rule) (replicate (N e) True) of
          Inl err \<Rightarrow> Inl err
        | Inr msk \<Rightarrow>
       (case profile_mask (=) (F_pareto e) (rule_profile rule) (replicate (N e) True) of
          Inl err \<Rightarrow> Inl err
        | Inr base_mask \<Rightarrow> Inr (list_ex id (map2 (\<and>) base_mask msk))))"

text \<open>The loop over \<open>keys2\<close> in \<^verbatim>\<open>subsumes\<close>; \<open>worse v2 v1\<close> is \<^verbatim>\<open>p2[i] > p1[i]\<close>
  for "up" and \<^verbatim>\<open>p2[i] < p1[i]\<close> for "down".\<close>

fun subsumes_loop :: "('a \<Rightarrow> 'a \<Rightarrow> bool) \<Rightarrow> 'a profile \<Rightarrow> 'a profile \<Rightarrow> int list \<Rightarrow> error + bool" where
  "subsumes_loop worse p1 p2 [] = Inr True"
| "subsumes_loop worse p1 p2 (i # rest) =
     (case map_of p2 i of
        None \<Rightarrow> Inl KeyError
      | Some v2 \<Rightarrow>
     (case map_of p1 i of
        None \<Rightarrow> Inl KeyError
      | Some v1 \<Rightarrow> if worse v2 v1 then Inr False else subsumes_loop worse p1 p2 rest))"

definition subsumes :: "('a::linorder) DRSA \<Rightarrow> 'a rule \<Rightarrow> 'a rule \<Rightarrow> error + bool" where
  "subsumes e r1 r2 =
     (if \<not> is_fit e then Inl not_fit
      else
        let p1 = rule_profile r1; p2 = rule_profile r2;
            concl1 = rule_concl r1; concl2 = rule_concl r2
        in
        if concl1 \<noteq> concl2 then Inr False
        else if \<not> (set (map fst p2) \<subseteq> set (map fst p1)) then Inr False
        else if direction e = ''up'' then subsumes_loop (\<lambda>a b. a > b) p1 p2 (map fst p2)
        else if direction e = ''down'' then subsumes_loop (\<lambda>a b. a < b) p1 p2 (map fst p2)
        else Inl (ValueError ''Unknown direction''))"

text \<open>The dict comprehension \<^verbatim>\<open>{i: self.F_pareto[idx, i] for i in criteria}\<close>.\<close>

fun build_profile :: "'a list list \<Rightarrow> nat \<Rightarrow> int list \<Rightarrow> 'a profile \<Rightarrow> error + 'a profile" where
  "build_profile F idx [] prof = Inr prof"
| "build_profile F idx (i # rest) prof =
     (if valid_idx F i then build_profile F idx rest (dict_set i (item F idx i) prof)
      else Inl IndexError)"

text \<open>\<^verbatim>\<open>self.decision_attribute[mask]\<close>: a boolean index must have the array's length.\<close>

definition bool_select :: "'b list \<Rightarrow> bool list \<Rightarrow> error + 'b list" where
  "bool_select xs msk =
     (if length msk \<noteq> length xs then Inl IndexError
      else Inr (map fst (filter snd (zip xs msk))))"

definition concl_text :: string where
  "concl_text = ''x is '' @ [char_of (39::nat)] @ ''good'' @ [char_of (39::nat)]"

text \<open>The body of the loop over the objects \<open>idx\<close> of one kind, up to the rule tuple.\<close>

definition make_rule :: "('a \<Rightarrow> string) \<Rightarrow> (rat option \<Rightarrow> string) \<Rightarrow> ('a::linorder) DRSA
    \<Rightarrow> int list \<Rightarrow> int \<Rightarrow> string \<Rightarrow> nat \<Rightarrow> error + 'a rule" where
  "make_rule neg_str str_2f e P threshold kind idx =
     (case build_profile (F_pareto e) idx P [] of
        Inl err \<Rightarrow> Inl err
      | Inr prof \<Rightarrow>
     (case profile_mask (if direction e = ''up'' then (\<lambda>a b. a \<ge> b) else (\<lambda>a b. a \<le> b))
             (F_pareto e) prof (replicate (N e) True) of
        Inl err \<Rightarrow> Inl err
      | Inr msk \<Rightarrow>
     (case bool_select (decision_attribute e) msk of
        Inl err \<Rightarrow> Inl err
      | Inr ds \<Rightarrow>
          let support = np_mean msk;
              confidence = np_mean (map (\<lambda>d. if direction e = ''up'' then d \<ge> threshold
                                              else d \<le> threshold) ds)
          in
          case make_rule_description neg_str str_2f e prof concl_text support confidence kind of
            Inl err \<Rightarrow> Inl err
          | Inr desc \<Rightarrow>
              Inr (prof, concl_text, support, confidence, kind, direction e, desc))))"

fun rules_loop :: "('a \<Rightarrow> string) \<Rightarrow> (rat option \<Rightarrow> string) \<Rightarrow> ('a::linorder) DRSA
    \<Rightarrow> int list \<Rightarrow> int \<Rightarrow> string \<Rightarrow> nat list \<Rightarrow> string set \<times> 'a rule list
    \<Rightarrow> error + string set \<times> 'a rule list" where
  "rules_loop neg_str str_2f e P threshold kind [] st = Inr st"
| "rules_loop neg_str str_2f e P threshold kind (idx # rest) (seen, rules) =
     (case make_rule neg_str str_2f e P threshold kind idx of
        Inl err \<Rightarrow> Inl err
      | Inr rule \<Rightarrow>
          if rule_desc rule \<notin> seen then
            (case is_robust e rule of
               Inl err \<Rightarrow> Inl err
             | Inr robust \<Rightarrow>
                 rules_loop neg_str str_2f e P threshold kind rest
                   (insert (rule_desc rule) seen, if robust then rules @ [rule] else rules))
          else rules_loop neg_str str_2f e P threshold kind rest (seen, rules))"

text \<open>\<^verbatim>\<open>any(self.subsumes(r1, r2) for r2 in rules if r2 != r1)\<close>, which stops at the
  first \<^verbatim>\<open>True\<close> and at the first exception.\<close>

fun any_subsumes :: "('a::linorder) DRSA \<Rightarrow> 'a rule \<Rightarrow> 'a rule list \<Rightarrow> error + bool" where
  "any_subsumes e r1 [] = Inr False"
| "any_subsumes e r1 (r2 # rest) =
     (if rule_ne r2 r1 then
        (case subsumes e r1 r2 of
           Inl err \<Rightarrow> Inl err
         | Inr b \<Rightarrow> if b then Inr True else any_subsumes e r1 rest)
      else any_subsumes e r1 rest)"

fun minimal_loop :: "('a::linorder) DRSA \<Rightarrow> 'a rule list \<Rightarrow> 'a rule list \<Rightarrow> 'a rule list
    \<Rightarrow> error + 'a rule list" where
  "minimal_loop e rules [] minimal_rules = Inr minimal_rules"
| "minimal_loop e rules (r1 # rest) minimal_rules =
     (case any_subsumes e r1 rules of
        Inl err \<Rightarrow> Inl err
      | Inr b \<Rightarrow> minimal_loop e rules rest (if \<not> b then minimal_rules @ [r1] else minimal_rules))"

text \<open>\<^verbatim>\<open>np.where(mask)[0]\<close>\<close>

definition np_where :: "bool list \<Rightarrow> nat list" where
  "np_where msk = filter (\<lambda>i. msk ! i) [0..<length msk]"

definition induce_decision_rules :: "('a \<Rightarrow> string) \<Rightarrow> (rat option \<Rightarrow> string) \<Rightarrow> ('a::linorder) DRSA
    \<Rightarrow> int list option \<Rightarrow> int \<Rightarrow> bool \<Rightarrow> error + 'a rule list" where
  "induce_decision_rules neg_str str_2f e crit threshold minimal =
     (if \<not> is_fit e then Inl not_fit
      else
        let P = (case crit of None \<Rightarrow> criteria e | Some c \<Rightarrow> if c = [] then criteria e else c) in
        case (if direction e = ''up'' then lower_approx_up e P threshold
              else lower_approx_down e P threshold) of
          Inl err \<Rightarrow> Inl err
        | Inr lower \<Rightarrow>
       (case (if direction e = ''up'' then upper_approx_up e P threshold
              else upper_approx_down e P threshold) of
          Inl err \<Rightarrow> Inl err
        | Inr upper \<Rightarrow>
       (case rules_loop neg_str str_2f e P threshold ''certain'' (np_where lower) ({}, []) of
          Inl err \<Rightarrow> Inl err
        | Inr st1 \<Rightarrow>
       (case rules_loop neg_str str_2f e P threshold ''possible''
               (np_where (map2 (\<lambda>u l. u \<and> \<not> l) upper lower)) st1 of
          Inl err \<Rightarrow> Inl err
        | Inr (seen, rules) \<Rightarrow>
            if minimal then minimal_loop e rules rules [] else Inr rules))))"

subsection \<open>Engines configured by \<^verbatim>\<open>fit\<close>\<close>

text \<open>The state \<^verbatim>\<open>fit\<close> leaves behind when its arguments have the shapes its docstring
  gives: a matrix of \<open>N\<close> rows of equal length and \<open>N\<close> decision classes.\<close>

definition fitted :: "'a DRSA \<Rightarrow> bool" where
  "fitted e \<longleftrightarrow> is_fit e \<and> N e = length (F_pareto e)
     \<and> length (decision_attribute e) = N e
     \<and> list_all (\<lambda>row. length row = n_var (F_pareto e)) (F_pareto e)
     \<and> np_max (decision_attribute e) = Inr (m e)"

text \<open>Every index of a criteria tuple is a column index NumPy accepts.\<close>

definition valid_criteria :: "'a DRSA \<Rightarrow> int list \<Rightarrow> bool" where
  "valid_criteria e P \<longleftrightarrow> (\<forall>i\<in>set P. valid_idx (F_pareto e) i)"

text \<open>The spec's concrete scenario (section 8), and a second engine with two criteria,
  tied objects and an inconsistent pair.\<close>

definition scenario :: "int DRSA" where
  "scenario = \<lparr>is_fit = True, F_pareto = [[1], [2], [3]], decision_attribute = [1, 2, 3],
     criteria = [0], N = 3, m = 3, direction = ''up''\<rparr>"

definition two_criteria :: "int DRSA" where
  "two_criteria = \<lparr>is_fit = True, F_pareto = [[1, 5], [2, 3], [3, 4], [2, 3]],
     decision_attribute = [1, 2, 1, 2], criteria = [0, 1], N = 4, m = 2, direction = ''up''\<rparr>"

text \<open>An engine with two reducts, whose rule induction keeps two incomparable rules and
  drops a third, and an engine in which each criterion alone loses quality.\<close>

definition four_objects :: "int DRSA" where
  "four_objects = \<lparr>is_fit = True, F_pareto = [[1, 2], [2, 1], [3, 3], [0, 0]],
     decision_attribute = [2, 2, 2, 1], criteria = [0, 1], N = 4, m = 2, direction = ''up''\<rparr>"

definition both_needed :: "int DRSA" where
  "both_needed = \<lparr>is_fit = True, F_pareto = [[1, 3], [2, 1], [0, 4]],
     decision_attribute = [2, 1, 1], criteria = [0, 1], N = 3, m = 2, direction = ''up''\<rparr>"

text \<open>The two rules induced on the first of them, with the values printed by
  \<open>\<lambda>v. str_int (- v)\<close> and every float printed as \<open>?\<close>.\<close>

definition rule_a :: "int rule" where
  "rule_a = ([(0, 1), (1, 2)], concl_text, Some (1 / 2), Some 1, ''certain'', ''up'',
     ''[CERTAIN] IF f_1(x) <= -1 AND f_2(x) <= -2 THEN '' @ concl_text
       @ '' (support=?, confidence=?)'')"

definition rule_b :: "int rule" where
  "rule_b = ([(0, 2), (1, 1)], concl_text, Some (1 / 2), Some 1, ''certain'', ''up'',
     ''[CERTAIN] IF f_1(x) <= -2 AND f_2(x) <= -1 THEN '' @ concl_text
       @ '' (support=?, confidence=?)'')"

subsection \<open>Notions used in the proofs\<close>

text \<open>A Boolean \<open>n \<times> n\<close> matrix given by its entries.\<close>

definition tab2 :: "nat \<Rightarrow> (nat \<Rightarrow> nat \<Rightarrow> bool) \<Rightarrow> bool list list" where
  "tab2 n f = map (\<lambda>y. map (\<lambda>x. f y x) [0..<n]) [0..<n]"

text \<open>Dominance on a criteria tuple, the boundary of a class union and the objects outside
  every boundary, read off the matrix.\<close>

definition dom_ge :: "('a::linorder) list list \<Rightarrow> int list \<Rightarrow> nat \<Rightarrow> nat \<Rightarrow> bool" where
  "dom_ge F P y x \<longleftrightarrow> (\<forall>i\<in>set P. item F y i \<ge> item F x i)"

definition dom_le :: "('a::linorder) list list \<Rightarrow> int list \<Rightarrow> nat \<Rightarrow> nat \<Rightarrow> bool" where
  "dom_le F P y x \<longleftrightarrow> (\<forall>i\<in>set P. item F y i \<le> item F x i)"

definition boundary :: "('a::linorder) DRSA \<Rightarrow> int list \<Rightarrow> int \<Rightarrow> nat \<Rightarrow> bool" where
  "boundary e P t x \<longleftrightarrow>
     (if direction e = ''up''
      then (\<exists>y<N e. dom_le (F_pareto e) P y x \<and> decision_attribute e ! y \<ge> t)
         \<and> \<not> (\<forall>y<N e. \<not> dom_ge (F_pareto e) P y x \<or> decision_attribute e ! y \<ge> t)
      else (\<exists>y<N e. dom_ge (F_pareto e) P y x \<and> decision_attribute e ! y \<le> t)
         \<and> \<not> (\<forall>y<N e. \<not> dom_le (F_pareto e) P y x \<or> decision_attribute e ! y \<le> t))"

definition consistent :: "('a::linorder) DRSA \<Rightarrow> int list \<Rightarrow> nat \<Rightarrow> bool" where
  "consistent e P x \<longleftrightarrow> (\<forall>t\<in>{2..m e}. \<not> boundary e P t x)"

section \<open>Dominance cones and approximations\<close>

lemma map_by_index: "map f xs = map (\<lambda>i. f (xs ! i)) [0..<length xs]"
  by (rule nth_equalityI) simp_all

lemma map2_same_index:
  "map2 f (map g [0..<n]) (map h [0..<n]) = map (\<lambda>i. f (g i) (h i)) [0..<n]"
  by (rule nth_equalityI) simp_all

lemma ones2_tab2: "ones2 n = tab2 n (\<lambda>y x. True)"
  unfolding ones2_def tab2_def
  by (rule nth_equalityI, simp, rule nth_equalityI, simp_all)

lemma and2_tab2: "and2 (tab2 n f) (tab2 n g) = tab2 n (\<lambda>y x. f y x \<and> g y x)"
  unfolding and2_def tab2_def
  by (simp add: map2_same_index)

lemma outer_tab2: "outer cmp vals = tab2 (length vals) (\<lambda>y x. cmp (vals ! y) (vals ! x))"
proof -
  have "\<And>v. map (\<lambda>vx. cmp v vx) vals = map (\<lambda>x. cmp v (vals ! x)) [0..<length vals]"
    by (rule map_by_index)
  then have "outer cmp vals = map (\<lambda>vy. map (\<lambda>x. cmp vy (vals ! x)) [0..<length vals]) vals"
    by (simp add: outer_def)
  also have "\<dots> = map (\<lambda>y. map (\<lambda>x. cmp (vals ! y) (vals ! x)) [0..<length vals]) [0..<length vals]"
    by (rule map_by_index)
  finally show ?thesis by (simp add: tab2_def)
qed

lemma tab2_cong:
  "(\<And>y x. y < n \<Longrightarrow> x < n \<Longrightarrow> f y x = g y x) \<Longrightarrow> tab2 n f = tab2 n g"
  by (simp add: tab2_def)

lemma column_valid:
  "valid_idx F i \<Longrightarrow> column F i = Inr (map (\<lambda>y. item F y i) [0..<length F])"
proof -
  assume v: "valid_idx F i"
  have "map (\<lambda>row. row ! norm_idx F i) F = map (\<lambda>y. item F y i) [0..<length F]"
    unfolding item_def by (rule map_by_index)
  with v show ?thesis by (simp add: column_def)
qed

lemma cone_loop_tab2:
  "\<forall>i\<in>set P. valid_idx F i \<Longrightarrow>
   cone_loop cmp F P (tab2 (length F) Q) =
     Inr (tab2 (length F) (\<lambda>y x. Q y x \<and> (\<forall>i\<in>set P. cmp (item F y i) (item F x i))))"
proof (induction P arbitrary: Q)
  case Nil
  then show ?case by simp
next
  case (Cons idx rest)
  let ?n = "length F"
  have v: "valid_idx F idx" using Cons.prems by simp
  have r: "\<forall>i\<in>set rest. valid_idx F i" using Cons.prems by simp
  have o: "outer cmp (map (\<lambda>y. item F y idx) [0..<?n])
      = tab2 ?n (\<lambda>y x. cmp (item F y idx) (item F x idx))"
    unfolding outer_tab2 by (simp, rule tab2_cong, simp)
  have "cone_loop cmp F (idx # rest) (tab2 ?n Q)
      = cone_loop cmp F rest (tab2 ?n (\<lambda>y x. Q y x \<and> cmp (item F y idx) (item F x idx)))"
    by (simp add: column_valid [OF v] o and2_tab2)
  also have "\<dots> = Inr (tab2 ?n (\<lambda>y x. (Q y x \<and> cmp (item F y idx) (item F x idx))
        \<and> (\<forall>i\<in>set rest. cmp (item F y i) (item F x i))))"
    by (rule Cons.IH [OF r])
  also have "tab2 ?n (\<lambda>y x. (Q y x \<and> cmp (item F y idx) (item F x idx))
        \<and> (\<forall>i\<in>set rest. cmp (item F y i) (item F x i)))
      = tab2 ?n (\<lambda>y x. Q y x \<and> (\<forall>i\<in>set (idx # rest). cmp (item F y i) (item F x i)))"
    by (rule tab2_cong) auto
  finally show ?case .
qed

lemma cone_loop_error:
  "\<not> (\<forall>i\<in>set P. valid_idx F i) \<Longrightarrow> cone_loop cmp F P msk = Inl IndexError"
  by (induction P arbitrary: msk) (auto simp: column_def)

lemma positive_cone_tab2:
  assumes "fitted e" "valid_criteria e P"
  shows "positive_cone e P = Inr (tab2 (N e) (dom_ge (F_pareto e) P))"
proof -
  have n: "N e = length (F_pareto e)" and f: "is_fit e"
    using assms(1) by (simp_all add: fitted_def)
  have "cone_loop (\<lambda>a b. a \<ge> b) (F_pareto e) P (tab2 (length (F_pareto e)) (\<lambda>y x. True))
      = Inr (tab2 (length (F_pareto e))
          (\<lambda>y x. True \<and> (\<forall>i\<in>set P. item (F_pareto e) y i \<ge> item (F_pareto e) x i)))"
    using assms(2) unfolding valid_criteria_def by (rule cone_loop_tab2)
  then show ?thesis
    by (simp add: positive_cone_def f n ones2_tab2 dom_ge_def [abs_def])
qed

lemma negative_cone_tab2:
  assumes "fitted e" "valid_criteria e P"
  shows "negative_cone e P = Inr (tab2 (N e) (dom_le (F_pareto e) P))"
proof -
  have n: "N e = length (F_pareto e)" and f: "is_fit e"
    using assms(1) by (simp_all add: fitted_def)
  have "cone_loop (\<lambda>a b. a \<le> b) (F_pareto e) P (tab2 (length (F_pareto e)) (\<lambda>y x. True))
      = Inr (tab2 (length (F_pareto e))
          (\<lambda>y x. True \<and> (\<forall>i\<in>set P. item (F_pareto e) y i \<le> item (F_pareto e) x i)))"
    using assms(2) unfolding valid_criteria_def by (rule cone_loop_tab2)
  then show ?thesis
    by (simp add: negative_cone_def f n ones2_tab2 dom_le_def [abs_def])
qed

lemma not2_tab2: "not2 (tab2 n g) = tab2 n (\<lambda>y x. \<not> g y x)"
  by (simp add: not2_def tab2_def)

lemma with_rows_tab2:
  assumes "length v = n"
  shows "with_rows f (tab2 n g) v = tab2 n (\<lambda>y x. f (g y x) (v ! y))"
proof -
  have v: "v = map (\<lambda>y. v ! y) [0..<n]"
    by (metis assms map_nth)
  have "with_rows f (tab2 n g) (map (\<lambda>y. v ! y) [0..<n]) = tab2 n (\<lambda>y x. f (g y x) (v ! y))"
    unfolding with_rows_def tab2_def by (simp add: map2_same_index)
  with v show ?thesis by simp
qed

lemma all_axis0_tab2: "all_axis0 n (tab2 n g) = map (\<lambda>x. \<forall>y<n. g y x) [0..<n]"
  by (auto simp add: all_axis0_def tab2_def list_all_iff)

lemma any_axis0_tab2: "any_axis0 n (tab2 n g) = map (\<lambda>x. \<exists>y<n. g y x) [0..<n]"
  by (auto simp add: any_axis0_def tab2_def list_ex_iff)

lemma fitted_dec: "fitted e \<Longrightarrow> length (map f (decision_attribute e)) = N e"
  by (simp add: fitted_def)

lemma lower_approx_up_eq:
  assumes "fitted e" "valid_criteria e P"
  shows "lower_approx_up e P t = Inr (map (\<lambda>x. \<forall>y<N e. \<not> dom_ge (F_pareto e) P y x
            \<or> decision_attribute e ! y \<ge> t) [0..<N e])"
proof -
  have f: "is_fit e" and l: "length (decision_attribute e) = N e"
    using assms(1) by (simp_all add: fitted_def)
  have "all_axis0 (N e) (tab2 (N e) (\<lambda>y x. \<not> dom_ge (F_pareto e) P y x
            \<or> map (\<lambda>d. d \<ge> t) (decision_attribute e) ! y))
      = map (\<lambda>x. \<forall>y<N e. \<not> dom_ge (F_pareto e) P y x \<or> decision_attribute e ! y \<ge> t) [0..<N e]"
    unfolding all_axis0_tab2 using l by auto
  then show ?thesis
    by (simp add: lower_approx_up_def f positive_cone_tab2 [OF assms] not2_tab2
        with_rows_tab2 [OF fitted_dec [OF assms(1)]])
qed

lemma lower_approx_down_eq:
  assumes "fitted e" "valid_criteria e P"
  shows "lower_approx_down e P t = Inr (map (\<lambda>x. \<forall>y<N e. \<not> dom_le (F_pareto e) P y x
            \<or> decision_attribute e ! y \<le> t) [0..<N e])"
proof -
  have f: "is_fit e" and l: "length (decision_attribute e) = N e"
    using assms(1) by (simp_all add: fitted_def)
  have "all_axis0 (N e) (tab2 (N e) (\<lambda>y x. \<not> dom_le (F_pareto e) P y x
            \<or> map (\<lambda>d. d \<le> t) (decision_attribute e) ! y))
      = map (\<lambda>x. \<forall>y<N e. \<not> dom_le (F_pareto e) P y x \<or> decision_attribute e ! y \<le> t) [0..<N e]"
    unfolding all_axis0_tab2 using l by auto
  then show ?thesis
    by (simp add: lower_approx_down_def f negative_cone_tab2 [OF assms] not2_tab2
        with_rows_tab2 [OF fitted_dec [OF assms(1)]])
qed

lemma upper_approx_up_eq:
  assumes "fitted e" "valid_criteria e P"
  shows "upper_approx_up e P t = Inr (map (\<lambda>x. \<exists>y<N e. dom_le (F_pareto e) P y x
            \<and> decision_attribute e ! y \<ge> t) [0..<N e])"
proof -
  have f: "is_fit e" and l: "length (decision_attribute e) = N e"
    using assms(1) by (simp_all add: fitted_def)
  have "any_axis0 (N e) (tab2 (N e) (\<lambda>y x. dom_le (F_pareto e) P y x
            \<and> map (\<lambda>d. d \<ge> t) (decision_attribute e) ! y))
      = map (\<lambda>x. \<exists>y<N e. dom_le (F_pareto e) P y x \<and> decision_attribute e ! y \<ge> t) [0..<N e]"
    unfolding any_axis0_tab2 using l by auto
  then show ?thesis
    by (simp add: upper_approx_up_def f negative_cone_tab2 [OF assms]
        with_rows_tab2 [OF fitted_dec [OF assms(1)]])
qed

lemma upper_approx_down_eq:
  assumes "fitted e" "valid_criteria e P"
  shows "upper_approx_down e P t = Inr (map (\<lambda>x. \<exists>y<N e. dom_ge (F_pareto e) P y x
            \<and> decision_attribute e ! y \<le> t) [0..<N e])"
proof -
  have f: "is_fit e" and l: "length (decision_attribute e) = N e"
    using assms(1) by (simp_all add: fitted_def)
  have "any_axis0 (N e) (tab2 (N e) (\<lambda>y x. dom_ge (F_pareto e) P y x
            \<and> map (\<lambda>d. d \<le> t) (decision_attribute e) ! y))
      = map (\<lambda>x. \<exists>y<N e. dom_ge (F_pareto e) P y x \<and> decision_attribute e ! y \<le> t) [0..<N e]"
    unfolding any_axis0_tab2 using l by auto
  then show ?thesis
    by (simp add: upper_approx_down_def f positive_cone_tab2 [OF assms]
        with_rows_tab2 [OF fitted_dec [OF assms(1)]])
qed

lemma quality_loop_eq:
  assumes "fitted e" "valid_criteria e P"
  shows "quality_loop e P ts (map c [0..<N e])
     = Inr (map (\<lambda>x. c x \<and> (\<forall>t\<in>set ts. \<not> boundary e P t x)) [0..<N e])"
proof (induction ts arbitrary: c)
  case Nil
  then show ?case by simp
next
  case (Cons t ts)
  have step: "quality_loop e P (t # ts) (map c [0..<N e])
      = quality_loop e P ts (map (\<lambda>x. c x \<and> \<not> boundary e P t x) [0..<N e])"
    by (simp add: lower_approx_up_eq [OF assms] lower_approx_down_eq [OF assms]
        upper_approx_up_eq [OF assms] upper_approx_down_eq [OF assms]
        map2_same_index boundary_def)
  have "map (\<lambda>x. (c x \<and> \<not> boundary e P t x) \<and> (\<forall>t\<in>set ts. \<not> boundary e P t x)) [0..<N e]
      = map (\<lambda>x. c x \<and> (\<forall>t\<in>set (t # ts). \<not> boundary e P t x)) [0..<N e]"
    by auto
  with step Cons.IH [of "\<lambda>x. c x \<and> \<not> boundary e P t x"] show ?case by simp
qed

lemma fitted_N_pos: "fitted e \<Longrightarrow> 0 < N e"
  by (auto simp: fitted_def np_max_def split: list.splits)

lemma quality_eq:
  assumes "fitted e" "valid_criteria e P"
  shows "quality e P = Inr (of_nat (length (filter (consistent e P) [0..<N e])) / of_nat (N e))"
proof -
  have f: "is_fit e" using assms(1) by (simp add: fitted_def)
  have r: "replicate (N e) True = map (\<lambda>x. True) [0..<N e]"
    by (rule nth_equalityI) simp_all
  have "quality_loop e P [2..m e] (replicate (N e) True) = Inr (map (consistent e P) [0..<N e])"
    unfolding r quality_loop_eq [OF assms] by (simp add: consistent_def [abs_def])
  moreover have "length (filter id (map (consistent e P) [0..<N e]))
      = length (filter (consistent e P) [0..<N e])"
    by (simp add: filter_map comp_def)
  ultimately show ?thesis
    using fitted_N_pos [OF assms(1)] by (simp add: quality_def f)
qed

lemma boundary_anti:
  assumes "set P \<subseteq> set Q" "boundary e Q t x"
  shows "boundary e P t x"
proof -
  have ge: "\<And>y. dom_ge (F_pareto e) Q y x \<Longrightarrow> dom_ge (F_pareto e) P y x"
    using assms(1) by (auto simp: dom_ge_def)
  have le: "\<And>y. dom_le (F_pareto e) Q y x \<Longrightarrow> dom_le (F_pareto e) P y x"
    using assms(1) by (auto simp: dom_le_def)
  show ?thesis
  proof (cases "direction e = ''up''")
    case True
    with assms(2) show ?thesis
      unfolding boundary_def using ge le by (simp, blast)
  next
    case False
    with assms(2) show ?thesis
      unfolding boundary_def using ge le by (simp, blast)
  qed
qed

lemma consistent_mono: "set P \<subseteq> set Q \<Longrightarrow> consistent e P x \<Longrightarrow> consistent e Q x"
  unfolding consistent_def using boundary_anti by blast

lemma length_filter_mono:
  "(\<And>x. x \<in> set xs \<Longrightarrow> p x \<Longrightarrow> q x) \<Longrightarrow> length (filter p xs) \<le> length (filter q xs)"
  by (induction xs) auto

section \<open>Configured engines\<close>

lemma fit_fitted:
  assumes "fit self (Some F) (Some c) (Some d) dir = Inr e"
    and "length d = length F" and "list_all (\<lambda>row. length row = n_var F) F"
  shows "fitted e \<and> F_pareto e = F \<and> criteria e = c \<and> decision_attribute e = d
     \<and> direction e = dir"
  using assms by (auto simp: fit_def fitted_def split: sum.splits)

lemma scenario_fit:
  "fit DRSA_init (Some [[1], [2], [3]]) (Some [0]) (Some [1, 2, 3]) ''up'' = Inr scenario"
  by (simp add: fit_def DRSA_init_def scenario_def np_max_def)

lemma two_criteria_fit:
  "fit DRSA_init (Some [[1, 5], [2, 3], [3, 4], [2, 3]]) (Some [0, 1]) (Some [1, 2, 1, 2]) ''up''
     = Inr two_criteria"
  by (simp add: fit_def DRSA_init_def two_criteria_def np_max_def)

lemma scenario_fitted: "fitted scenario"
  using fit_fitted [OF scenario_fit] by (simp add: n_var_def)

lemma two_criteria_fitted: "fitted two_criteria"
  using fit_fitted [OF two_criteria_fit] by (simp add: n_var_def)

lemma two_criteria_valid: "valid_criteria two_criteria [0, 1]"
  by (simp add: valid_criteria_def valid_idx_def two_criteria_def n_var_def)

lemma scenario_valid: "valid_criteria scenario [0]"
  by (simp add: valid_criteria_def valid_idx_def scenario_def n_var_def)

section \<open>Claims on cones, approximations and quality\<close>

text \<open>Claim C1. On an engine configured by \<^verbatim>\<open>fit\<close>, for criteria tuples \<open>P\<close> and \<open>Q\<close>
  with \<open>P \<subseteq> Q\<close> as sets (and every index of \<open>Q\<close> a column of the matrix), both
  \<^verbatim>\<open>quality(P)\<close> and \<^verbatim>\<open>quality(Q)\<close> return, and \<^verbatim>\<open>quality(P) \<le> quality(Q)\<close>.\<close>
theorem quality_monotone:
  assumes "fitted e" "valid_criteria e Q" "set P \<subseteq> set Q"
  shows "\<exists>qP qQ. quality e P = Inr qP \<and> quality e Q = Inr qQ \<and> qP \<le> qQ"
proof -
  have vP: "valid_criteria e P"
    using assms(2,3) by (auto simp: valid_criteria_def)
  have "length (filter (consistent e P) [0..<N e]) \<le> length (filter (consistent e Q) [0..<N e])"
    by (rule length_filter_mono) (rule consistent_mono [OF assms(3)])
  then have "(of_nat (length (filter (consistent e P) [0..<N e])) :: rat) / of_nat (N e)
      \<le> of_nat (length (filter (consistent e Q) [0..<N e])) / of_nat (N e)"
    by (simp add: divide_right_mono)
  then show ?thesis
    by (simp add: quality_eq [OF assms(1) vP] quality_eq [OF assms(1,2)])
qed

lemma two_criteria_quality:
  "quality two_criteria [1] = Inr 0" "quality two_criteria [0, 1] = Inr (1 / 4)"
  by code_simp+

text \<open>The theorem at the engine with two criteria: \<open>quality((1,)) = 0\<close> and
  \<open>quality((0, 1)) = 1/4\<close>.\<close>
theorem quality_monotone_witness:
  "fitted two_criteria \<and> valid_criteria two_criteria [0, 1] \<and> set [1] \<subseteq> set [0, 1 :: int]
     \<and> quality two_criteria [1] = Inr 0 \<and> quality two_criteria [0, 1] = Inr (1 / 4)
     \<and> (\<exists>qP qQ. quality two_criteria [1] = Inr qP \<and> quality two_criteria [0, 1] = Inr qQ
          \<and> qP \<le> qQ)"
proof -
  have s: "set [1] \<subseteq> set [0, 1 :: int]" by simp
  show ?thesis
    using quality_monotone [OF two_criteria_fitted two_criteria_valid s]
      two_criteria_fitted two_criteria_valid two_criteria_quality by simp
qed

lemma tab2_length: "length (tab2 n f) = n"
  by (simp add: tab2_def)

lemma tab2_nth: "y < n \<Longrightarrow> tab2 n f ! y = map (f y) [0..<n]"
  by (simp add: tab2_def)

text \<open>Claim C4. On a configured engine, \<^verbatim>\<open>positive_cone(P)\<close> and \<^verbatim>\<open>negative_cone(P)\<close>
  return \<open>N \<times> N\<close> matrices; entry \<open>[y, x]\<close> of the positive cone is true iff
  \<open>F[y, i] \<ge> F[x, i]\<close> for every \<open>i\<close> in \<open>P\<close>, entry \<open>[y, x]\<close> of the negative cone iff
  \<open>F[y, i] \<le> F[x, i]\<close> for every \<open>i\<close> in \<open>P\<close>, and both diagonals are true.\<close>
theorem cones_characterised:
  assumes "fitted e" "valid_criteria e P"
  shows "\<exists>pc nc. positive_cone e P = Inr pc \<and> negative_cone e P = Inr nc
     \<and> length pc = N e \<and> length nc = N e
     \<and> (\<forall>y<N e. length (pc ! y) = N e \<and> length (nc ! y) = N e)
     \<and> (\<forall>y<N e. \<forall>x<N e.
           (pc ! y ! x \<longleftrightarrow> (\<forall>i\<in>set P. item (F_pareto e) y i \<ge> item (F_pareto e) x i))
         \<and> (nc ! y ! x \<longleftrightarrow> (\<forall>i\<in>set P. item (F_pareto e) y i \<le> item (F_pareto e) x i)))
     \<and> (\<forall>x<N e. pc ! x ! x \<and> nc ! x ! x)"
  by (simp add: positive_cone_tab2 [OF assms] negative_cone_tab2 [OF assms]
      tab2_length tab2_nth dom_ge_def dom_le_def)

text \<open>The theorem at the spec's scenario, with the two matrices computed.\<close>
theorem cones_characterised_witness:
  "fitted scenario \<and> valid_criteria scenario [0]
     \<and> positive_cone scenario [0]
         = Inr [[True, False, False], [True, True, False], [True, True, True]]
     \<and> negative_cone scenario [0]
         = Inr [[True, True, True], [False, True, True], [False, False, True]]
     \<and> (\<exists>pc nc. positive_cone scenario [0] = Inr pc \<and> negative_cone scenario [0] = Inr nc
          \<and> pc ! 1 ! 1 \<and> nc ! 1 ! 1)"
proof -
  have p: "positive_cone scenario [0]
      = Inr [[True, False, False], [True, True, False], [True, True, True]]"
    by code_simp
  have n: "negative_cone scenario [0]
      = Inr [[True, True, True], [False, True, True], [False, False, True]]"
    by code_simp
  have "N scenario = 3" by (simp add: scenario_def)
  then show ?thesis
    using cones_characterised [OF scenario_fitted scenario_valid] scenario_fitted scenario_valid
      p n by simp
qed

text \<open>Claim C5. On a configured engine, \<^verbatim>\<open>lower_approx_up(P, t)[x]\<close> is true iff every
  object \<open>y\<close> with \<^verbatim>\<open>positive_cone(P)[y, x]\<close> has decision class at least \<open>t\<close>, and
  \<^verbatim>\<open>upper_approx_up(P, t)[x]\<close> is true iff some object \<open>y\<close> with
  \<^verbatim>\<open>negative_cone(P)[y, x]\<close> has decision class at least \<open>t\<close>.\<close>
theorem approx_up_characterised:
  assumes "fitted e" "valid_criteria e P"
  shows "\<exists>pc nc lo up. positive_cone e P = Inr pc \<and> negative_cone e P = Inr nc
     \<and> lower_approx_up e P t = Inr lo \<and> upper_approx_up e P t = Inr up
     \<and> length lo = N e \<and> length up = N e
     \<and> (\<forall>x<N e.
           (lo ! x \<longleftrightarrow> (\<forall>y<N e. pc ! y ! x \<longrightarrow> decision_attribute e ! y \<ge> t))
         \<and> (up ! x \<longleftrightarrow> (\<exists>y<N e. nc ! y ! x \<and> decision_attribute e ! y \<ge> t)))"
proof -
  let ?pc = "tab2 (N e) (dom_ge (F_pareto e) P)"
  let ?nc = "tab2 (N e) (dom_le (F_pareto e) P)"
  let ?lo = "map (\<lambda>x. \<forall>y<N e. \<not> dom_ge (F_pareto e) P y x \<or> decision_attribute e ! y \<ge> t)
        [0..<N e]"
  let ?up = "map (\<lambda>x. \<exists>y<N e. dom_le (F_pareto e) P y x \<and> decision_attribute e ! y \<ge> t)
        [0..<N e]"
  have e: "\<And>x y. x < N e \<Longrightarrow> y < N e \<Longrightarrow> ?pc ! y ! x = dom_ge (F_pareto e) P y x"
      "\<And>x y. x < N e \<Longrightarrow> y < N e \<Longrightarrow> ?nc ! y ! x = dom_le (F_pareto e) P y x"
    by (simp_all add: tab2_nth)
  have "\<forall>x<N e.
           (?lo ! x \<longleftrightarrow> (\<forall>y<N e. ?pc ! y ! x \<longrightarrow> decision_attribute e ! y \<ge> t))
         \<and> (?up ! x \<longleftrightarrow> (\<exists>y<N e. ?nc ! y ! x \<and> decision_attribute e ! y \<ge> t))"
    using e by auto
  moreover have "length ?lo = N e" "length ?up = N e" by simp_all
  ultimately show ?thesis
    using positive_cone_tab2 [OF assms] negative_cone_tab2 [OF assms]
      lower_approx_up_eq [OF assms, of t] upper_approx_up_eq [OF assms, of t]
    by blast
qed

text \<open>The theorem at the spec's scenario with threshold 2.\<close>
theorem approx_up_characterised_witness:
  "fitted scenario \<and> valid_criteria scenario [0]
     \<and> lower_approx_up scenario [0] 2 = Inr [False, True, True]
     \<and> upper_approx_up scenario [0] 2 = Inr [False, True, True]
     \<and> (\<exists>pc nc lo up. positive_cone scenario [0] = Inr pc \<and> negative_cone scenario [0] = Inr nc
          \<and> lower_approx_up scenario [0] 2 = Inr lo \<and> upper_approx_up scenario [0] 2 = Inr up
          \<and> length lo = N scenario \<and> length up = N scenario
          \<and> (\<forall>x<N scenario.
               (lo ! x \<longleftrightarrow> (\<forall>y<N scenario. pc ! y ! x \<longrightarrow> decision_attribute scenario ! y \<ge> 2))
             \<and> (up ! x \<longleftrightarrow> (\<exists>y<N scenario. nc ! y ! x \<and> decision_attribute scenario ! y \<ge> 2))))"
proof -
  have l: "lower_approx_up scenario [0] 2 = Inr [False, True, True]"
    by code_simp
  have u: "upper_approx_up scenario [0] 2 = Inr [False, True, True]"
    by code_simp
  show ?thesis
    using approx_up_characterised [OF scenario_fitted scenario_valid, of 2]
      scenario_fitted scenario_valid l u
    by (intro conjI) assumption+
qed

text \<open>Claim C10. On a fitted engine, \<^verbatim>\<open>positive_cone(())\<close> and \<^verbatim>\<open>negative_cone(())\<close>
  do not fail and return the \<open>N \<times> N\<close> matrix that is true everywhere.\<close>
theorem cones_empty_criteria:
  "is_fit e \<Longrightarrow>
     positive_cone e [] = Inr (replicate (N e) (replicate (N e) True))
   \<and> negative_cone e [] = Inr (replicate (N e) (replicate (N e) True))"
  by (simp add: positive_cone_def negative_cone_def ones2_def)

text \<open>The theorem at the spec's scenario.\<close>
theorem cones_empty_criteria_witness:
  "is_fit scenario
   \<and> positive_cone scenario [] = Inr [[True, True, True], [True, True, True], [True, True, True]]
   \<and> negative_cone scenario [] = Inr [[True, True, True], [True, True, True], [True, True, True]]"
proof -
  have f: "is_fit scenario" by (simp add: scenario_def)
  have n: "N scenario = 3" by (simp add: scenario_def)
  have r: "replicate 3 (replicate 3 True)
      = [[True, True, True], [True, True, True], [True, True, True]]"
    by (simp add: numeral_3_eq_3)
  show ?thesis
    using cones_empty_criteria [OF f] f by (simp add: n r)
qed

text \<open>Claim C9. Before \<^verbatim>\<open>fit\<close>, each of \<^verbatim>\<open>positive_cone\<close>, \<^verbatim>\<open>negative_cone\<close>, the four
  approximation operators, \<^verbatim>\<open>quality\<close>, \<^verbatim>\<open>find_reducts\<close>, \<^verbatim>\<open>core\<close> and
  \<^verbatim>\<open>induce_decision_rules\<close> fails with the not-fitted error, which the source raises as
  the assertion failure "DRSA has not been fit.".\<close>
theorem not_fitted_fails:
  assumes "\<not> is_fit e"
  shows "positive_cone e P = Inl (AssertionError ''DRSA has not been fit.'')
     \<and> negative_cone e P = Inl (AssertionError ''DRSA has not been fit.'')
     \<and> lower_approx_up e P t = Inl (AssertionError ''DRSA has not been fit.'')
     \<and> upper_approx_up e P t = Inl (AssertionError ''DRSA has not been fit.'')
     \<and> lower_approx_down e P t = Inl (AssertionError ''DRSA has not been fit.'')
     \<and> upper_approx_down e P t = Inl (AssertionError ''DRSA has not been fit.'')
     \<and> quality e P = Inl (AssertionError ''DRSA has not been fit.'')
     \<and> find_reducts e = Inl (AssertionError ''DRSA has not been fit.'')
     \<and> core e reducts = Inl (AssertionError ''DRSA has not been fit.'')
     \<and> induce_decision_rules neg_str str_2f e crit t minimal
         = Inl (AssertionError ''DRSA has not been fit.'')"
  using assms
  by (simp add: positive_cone_def negative_cone_def lower_approx_up_def upper_approx_up_def
      lower_approx_down_def upper_approx_down_def quality_def find_reducts_def core_def
      induce_decision_rules_def not_fit_def)

text \<open>The theorem at the engine \<^verbatim>\<open>DRSA()\<close> as constructed.\<close>
theorem not_fitted_fails_witness:
  "\<not> is_fit (DRSA_init :: int DRSA)
     \<and> positive_cone (DRSA_init :: int DRSA) [0] = Inl (AssertionError ''DRSA has not been fit.'')
     \<and> quality (DRSA_init :: int DRSA) [0] = Inl (AssertionError ''DRSA has not been fit.'')
     \<and> find_reducts (DRSA_init :: int DRSA) = Inl (AssertionError ''DRSA has not been fit.'')
     \<and> core (DRSA_init :: int DRSA) None = Inl (AssertionError ''DRSA has not been fit.'')"
proof -
  have n: "\<not> is_fit (DRSA_init :: int DRSA)" by (simp add: DRSA_init_def)
  show ?thesis
    using not_fitted_fails [OF n, of "[0]" _ None] n by simp
qed

section \<open>Claims on the core\<close>

lemma fold_inter: "fold (\<lambda>red core_set. core_set \<inter> set red) rest S = S \<inter> (\<Inter>red\<in>set rest. set red)"
  by (induction rest arbitrary: S) auto

lemma fold_inter_finite: "finite S \<Longrightarrow> finite (fold (\<lambda>red core_set. core_set \<inter> set red) rest S)"
  by (simp add: fold_inter)

lemma core_some:
  assumes "is_fit e"
  shows "core e (Some (red0 # rest))
    = Inr (sorted_list_of_set (fold (\<lambda>red core_set. core_set \<inter> set red) rest (set red0)))"
  using assms by (simp add: core_def)

text \<open>Claim C8. On a fitted engine, for a non-empty list of reducts, \<^verbatim>\<open>core(reducts)\<close>
  returns a tuple whose elements are exactly those common to all the given reducts; so it
  is contained, as a set, in every reduct of the list.\<close>
theorem core_contained:
  assumes "is_fit e" "reducts \<noteq> []"
  shows "\<exists>c. core e (Some reducts) = Inr c
     \<and> set c = (\<Inter>red\<in>set reducts. set red)
     \<and> (\<forall>red\<in>set reducts. set c \<subseteq> set red)"
proof -
  obtain red0 rest where r: "reducts = red0 # rest"
    using assms(2) by (cases reducts) auto
  let ?S = "fold (\<lambda>red core_set. core_set \<inter> set red) rest (set red0)"
  have f: "finite ?S" by (rule fold_inter_finite) simp
  have "set (sorted_list_of_set ?S) = (\<Inter>red\<in>set reducts. set red)"
    using f by (simp add: fold_inter r)
  moreover have "\<forall>red\<in>set reducts. (\<Inter>red\<in>set reducts. set red) \<subseteq> set red"
    by blast
  ultimately show ?thesis
    using core_some [OF assms(1), of red0 rest] r by auto
qed

text \<open>The theorem at the reducts \<open>(0, 1)\<close> and \<open>(1, 2)\<close>, whose core is \<open>(1,)\<close>.\<close>
theorem core_contained_witness:
  "is_fit scenario \<and> [[0, 1], [1, 2 :: int]] \<noteq> []
     \<and> core scenario (Some [[0, 1], [1, 2]]) = Inr [1]
     \<and> (\<exists>c. core scenario (Some [[0, 1], [1, 2]]) = Inr c
          \<and> set c = (\<Inter>red\<in>set [[0, 1], [1, 2]]. set red)
          \<and> (\<forall>red\<in>set [[0, 1], [1, 2]]. set c \<subseteq> set red))"
proof -
  have f: "is_fit scenario" by (simp add: scenario_def)
  have n: "[[0, 1], [1, 2 :: int]] \<noteq> []" by simp
  have c: "core scenario (Some [[0, 1], [1, 2]]) = Inr [1]" by code_simp
  show ?thesis
    using core_contained [OF f n] f n c by (intro conjI) assumption+
qed

text \<open>An empty list of reducts is falsy, so \<^verbatim>\<open>reducts or self.find_reducts()\<close> treats it
  as the omitted argument.\<close>
lemma core_empty_list: "core e (Some []) = core e None"
  by (simp add: core_def)

text \<open>Claim C3 says that \<^verbatim>\<open>core([])\<close> returns the empty tuple without computing
  reducts. On the spec's scenario the code computes the reducts \<open>[(0,)]\<close> and returns
  \<open>(0,)\<close>: the guard \<^verbatim>\<open>if not reducts: return ()\<close> comes after the fallback and is
  never reached with an empty argument.\<close>
theorem core_empty_list_scenario:
  "find_reducts scenario = Inr [[0]] \<and> core scenario (Some []) = Inr [0]"
  by code_simp

section \<open>Decision rules\<close>

lemma profile_mask_valid:
  "profile_mask cmp F prof msk = Inr r \<Longrightarrow> \<forall>(i, v)\<in>set prof. valid_idx F i"
proof (induction prof arbitrary: msk)
  case Nil
  then show ?case by simp
next
  case (Cons p prof)
  obtain i val where p: "p = (i, val)" by (cases p)
  from Cons.prems p have v: "valid_idx F i"
    by (auto simp: column_def split: if_splits)
  from Cons.prems p v obtain msk' where "profile_mask cmp F prof msk' = Inr r"
    by (auto simp: column_def)
  from Cons.IH [OF this] v p show ?case by simp
qed

lemma profile_mask_eq:
  "\<forall>(i, v)\<in>set prof. valid_idx F i \<Longrightarrow>
   profile_mask cmp F prof (map c [0..<length F])
     = Inr (map (\<lambda>x. c x \<and> (\<forall>(i, v)\<in>set prof. cmp (item F x i) v)) [0..<length F])"
proof (induction prof arbitrary: c)
  case Nil
  then show ?case by simp
next
  case (Cons p prof)
  obtain i val where p: "p = (i, val)" by (cases p)
  have v: "valid_idx F i" and r: "\<forall>(i, v)\<in>set prof. valid_idx F i"
    using Cons.prems p by simp_all
  have "profile_mask cmp F (p # prof) (map c [0..<length F])
      = profile_mask cmp F prof (map (\<lambda>x. c x \<and> cmp (item F x i) val) [0..<length F])"
    by (simp add: p column_valid [OF v] map2_same_index)
  also have "\<dots> = Inr (map (\<lambda>x. (c x \<and> cmp (item F x i) val)
        \<and> (\<forall>(i, v)\<in>set prof. cmp (item F x i) v)) [0..<length F])"
    by (rule Cons.IH [OF r])
  also have "map (\<lambda>x. (c x \<and> cmp (item F x i) val)
        \<and> (\<forall>(i, v)\<in>set prof. cmp (item F x i) v)) [0..<length F]
      = map (\<lambda>x. c x \<and> (\<forall>(i, v)\<in>set (p # prof). cmp (item F x i) v)) [0..<length F]"
    by (auto simp: p)
  finally show ?case .
qed

lemma replicate_True: "replicate n True = map (\<lambda>x. True) [0..<n]"
  by (rule nth_equalityI) simp_all

lemma is_robust_True:
  assumes "is_robust e rule = Inr True" "N e = length (F_pareto e)"
  shows "\<exists>x<N e. (\<forall>(i, v)\<in>set (rule_profile rule). item (F_pareto e) x i = v)
     \<and> (\<forall>(i, v)\<in>set (rule_profile rule).
          if direction e = ''up'' then item (F_pareto e) x i \<ge> v else item (F_pareto e) x i \<le> v)"
proof -
  let ?F = "F_pareto e" and ?p = "rule_profile rule"
  let ?cmp = "if direction e = ''up'' then (\<lambda>a b. a \<ge> b) else (\<lambda>(a::'a) b. a \<le> b)"
  from assms(1) obtain msk base_mask where
    m: "profile_mask ?cmp ?F ?p (replicate (N e) True) = Inr msk"
    and b: "profile_mask (=) ?F ?p (replicate (N e) True) = Inr base_mask"
    and ex: "list_ex id (map2 (\<and>) base_mask msk)"
    by (auto simp: is_robust_def Let_def split: if_splits sum.splits)
  have v: "\<forall>(i, v)\<in>set ?p. valid_idx ?F i"
    using b by (rule profile_mask_valid)
  have m': "msk = map (\<lambda>x. True \<and> (\<forall>(i, v)\<in>set ?p. ?cmp (item ?F x i) v)) [0..<N e]"
    using m profile_mask_eq [OF v, of ?cmp "\<lambda>x. True"] by (simp add: replicate_True assms(2))
  have b': "base_mask = map (\<lambda>x. True \<and> (\<forall>(i, v)\<in>set ?p. item ?F x i = v)) [0..<N e]"
    using b profile_mask_eq [OF v, of "(=)" "\<lambda>x. True"] by (simp add: replicate_True assms(2))
  from ex obtain x where x: "x < N e" "\<forall>(i, v)\<in>set ?p. item ?F x i = v"
      "\<forall>(i, v)\<in>set ?p. ?cmp (item ?F x i) v"
    unfolding m' b' map2_same_index by (auto simp: list_ex_iff)
  from x(3) have "\<forall>(i, v)\<in>set ?p.
      if direction e = ''up'' then item ?F x i \<ge> v else item ?F x i \<le> v"
    by (auto split: if_splits)
  with x(1,2) show ?thesis by blast
qed

lemma rules_loop_robust:
  "rules_loop neg_str str_2f e P t kind idxs (seen, rules) = Inr (seen', rules') \<Longrightarrow>
   \<forall>r\<in>set rules. is_robust e r = Inr True \<Longrightarrow>
   \<forall>r\<in>set rules'. is_robust e r = Inr True"
proof (induction idxs arbitrary: seen rules)
  case Nil
  then show ?case by simp
next
  case (Cons idx rest)
  from Cons.prems(1) obtain rule where
    r: "make_rule neg_str str_2f e P t kind idx = Inr rule"
    by (auto split: sum.splits)
  show ?case
  proof (cases "rule_desc rule \<in> seen")
    case True
    with Cons.prems(1) r
    have "rules_loop neg_str str_2f e P t kind rest (seen, rules) = Inr (seen', rules')"
      by simp
    from Cons.IH [OF this Cons.prems(2)] show ?thesis .
  next
    case False
    with Cons.prems(1) r obtain robust where
      b: "is_robust e rule = Inr robust"
      and l: "rules_loop neg_str str_2f e P t kind rest
          (insert (rule_desc rule) seen, if robust then rules @ [rule] else rules)
          = Inr (seen', rules')"
      by (auto split: sum.splits)
    have "\<forall>r\<in>set (if robust then rules @ [rule] else rules). is_robust e r = Inr True"
      using Cons.prems(2) b by auto
    from Cons.IH [OF l this] show ?thesis .
  qed
qed

lemma rules_loop_distinct:
  "rules_loop neg_str str_2f e P t kind idxs (seen, rules) = Inr (seen', rules') \<Longrightarrow>
   distinct (map rule_desc rules) \<and> rule_desc ` set rules \<subseteq> seen \<Longrightarrow>
   distinct (map rule_desc rules') \<and> rule_desc ` set rules' \<subseteq> seen'"
proof (induction idxs arbitrary: seen rules)
  case Nil
  then show ?case by simp
next
  case (Cons idx rest)
  from Cons.prems(1) obtain rule where
    r: "make_rule neg_str str_2f e P t kind idx = Inr rule"
    by (auto split: sum.splits)
  show ?case
  proof (cases "rule_desc rule \<in> seen")
    case True
    with Cons.prems(1) r
    have "rules_loop neg_str str_2f e P t kind rest (seen, rules) = Inr (seen', rules')"
      by simp
    from Cons.IH [OF this Cons.prems(2)] show ?thesis .
  next
    case False
    with Cons.prems(1) r obtain robust where
      l: "rules_loop neg_str str_2f e P t kind rest
          (insert (rule_desc rule) seen, if robust then rules @ [rule] else rules)
          = Inr (seen', rules')"
      by (auto split: sum.splits)
    have "distinct (map rule_desc (if robust then rules @ [rule] else rules))
        \<and> rule_desc ` set (if robust then rules @ [rule] else rules)
            \<subseteq> insert (rule_desc rule) seen"
      using Cons.prems(2) False by auto
    from Cons.IH [OF l this] show ?thesis .
  qed
qed

lemma minimal_loop_eq:
  "minimal_loop e rules rs acc = Inr out \<Longrightarrow>
   out = acc @ filter (\<lambda>r1. any_subsumes e r1 rules = Inr False) rs"
proof (induction rs arbitrary: acc)
  case Nil
  then show ?case by simp
next
  case (Cons r1 rs)
  from Cons.prems obtain b where
    b: "any_subsumes e r1 rules = Inr b"
    and l: "minimal_loop e rules rs (if \<not> b then acc @ [r1] else acc) = Inr out"
    by (auto split: sum.splits)
  from Cons.IH [OF l] b show ?case by auto
qed

lemma any_subsumes_False:
  "any_subsumes e r1 rules = Inr False \<Longrightarrow> r2 \<in> set rules \<Longrightarrow> rule_ne r2 r1 \<Longrightarrow>
   subsumes e r1 r2 = Inr False"
  by (induction rules) (auto split: if_splits sum.splits)

lemma subsumes_loop_False:
  "subsumes_loop worse p1 p2 ks = Inr False \<Longrightarrow>
   \<exists>k\<in>set ks. \<exists>v2 v1. map_of p2 k = Some v2 \<and> map_of p1 k = Some v1 \<and> worse v2 v1"
  by (induction ks) (auto split: option.splits if_splits)

lemma induce_rules_shape:
  assumes "induce_decision_rules neg_str str_2f e crit t minimal = Inr rules"
  shows "\<exists>all_rules.
      is_fit e
    \<and> (\<forall>r\<in>set all_rules. is_robust e r = Inr True)
    \<and> distinct (map rule_desc all_rules)
    \<and> rules = (if minimal then filter (\<lambda>r1. any_subsumes e r1 all_rules = Inr False) all_rules
               else all_rules)"
proof -
  let ?P = "case crit of None \<Rightarrow> criteria e | Some c \<Rightarrow> if c = [] then criteria e else c"
  from assms have f: "is_fit e"
    by (auto simp: induce_decision_rules_def split: if_splits)
  from assms f obtain lower upper st1 seen all_rules where
    l1: "rules_loop neg_str str_2f e ?P t ''certain'' (np_where lower) ({}, []) = Inr st1"
    and l2: "rules_loop neg_str str_2f e ?P t ''possible''
        (np_where (map2 (\<lambda>u l. u \<and> \<not> l) upper lower)) st1 = Inr (seen, all_rules)"
    and fin: "(if minimal then minimal_loop e all_rules all_rules [] else Inr all_rules) = Inr rules"
    by (auto simp: induce_decision_rules_def Let_def split: sum.splits prod.splits)
  obtain seen1 rules1 where st1: "st1 = (seen1, rules1)" by (cases st1)
  have r1: "\<forall>r\<in>set rules1. is_robust e r = Inr True"
    using rules_loop_robust [OF l1 [unfolded st1]] by simp
  have d1: "distinct (map rule_desc rules1) \<and> rule_desc ` set rules1 \<subseteq> seen1"
    using rules_loop_distinct [OF l1 [unfolded st1]] by simp
  have r2: "\<forall>r\<in>set all_rules. is_robust e r = Inr True"
    using rules_loop_robust [OF l2 [unfolded st1] r1] .
  have d2: "distinct (map rule_desc all_rules)"
    using rules_loop_distinct [OF l2 [unfolded st1] d1] by simp
  have "rules = (if minimal
      then filter (\<lambda>r1. any_subsumes e r1 all_rules = Inr False) all_rules else all_rules)"
    using fin minimal_loop_eq [of e all_rules all_rules "[]" rules] by (auto split: if_splits)
  with f r2 d2 show ?thesis by blast
qed

lemma rule_ne_desc: "rule_desc r2 \<noteq> rule_desc r1 \<Longrightarrow> rule_ne r2 r1"
  by (auto simp: rule_ne_def rule_desc_def)

lemma dict_set_keys: "fst ` set (dict_set k v ps) = insert k (fst ` set ps)"
proof (induction ps)
  case Nil
  then show ?case by simp
next
  case (Cons p ps)
  obtain k' v' where p: "p = (k', v')" by (cases p)
  show ?case
  proof (cases "k' = k")
    case True
    then show ?thesis by (simp add: p)
  next
    case False
    then show ?thesis using Cons.IH by (simp add: p insert_commute)
  qed
qed

lemma build_profile_ok:
  "\<forall>i\<in>set P. valid_idx F i \<Longrightarrow> \<forall>i\<in>fst ` set prof0. valid_idx F i \<Longrightarrow>
   \<exists>prof. build_profile F idx P prof0 = Inr prof \<and> (\<forall>i\<in>fst ` set prof. valid_idx F i)"
proof (induction P arbitrary: prof0)
  case Nil
  then show ?case by simp
next
  case (Cons i rest)
  have "\<forall>k\<in>fst ` set (dict_set i (item F idx i) prof0). valid_idx F k"
    using Cons.prems by (simp add: dict_set_keys)
  with Cons.IH [of "dict_set i (item F idx i) prof0"] Cons.prems(1) show ?case by simp
qed

lemma profile_mask_ok:
  assumes "\<forall>i\<in>fst ` set prof. valid_idx F i"
  shows "\<exists>msk. profile_mask cmp F prof (replicate (length F) True) = Inr msk
     \<and> length msk = length F"
proof -
  have "\<forall>(i, v)\<in>set prof. valid_idx F i" using assms by auto
  from profile_mask_eq [OF this, of cmp "\<lambda>x. True"] show ?thesis
    by (simp add: replicate_True)
qed

lemma make_rule_ok:
  assumes "fitted e" "valid_criteria e P"
  shows "\<exists>rule. make_rule neg_str str_2f e P t kind idx = Inr rule
     \<and> (\<forall>i\<in>fst ` set (rule_profile rule). valid_idx (F_pareto e) i)"
proof -
  have f: "is_fit e" and n: "N e = length (F_pareto e)"
    and l: "length (decision_attribute e) = N e"
    using assms(1) by (simp_all add: fitted_def)
  from build_profile_ok [of P "F_pareto e" "[]" idx] assms(2) obtain prof where
    p: "build_profile (F_pareto e) idx P [] = Inr prof"
    and v: "\<forall>i\<in>fst ` set prof. valid_idx (F_pareto e) i"
    by (auto simp: valid_criteria_def)
  from profile_mask_ok [OF v] obtain msk where
    m: "profile_mask (if direction e = ''up'' then (\<lambda>a b. a \<ge> b) else (\<lambda>a b. a \<le> b))
          (F_pareto e) prof (replicate (N e) True) = Inr msk"
    and lm: "length msk = N e"
    unfolding n by blast
  show ?thesis
    using p v m lm l f
    by (simp add: make_rule_def bool_select_def make_rule_description_def Let_def
        rule_profile_def)
qed

lemma is_robust_ok:
  assumes "is_fit e" "N e = length (F_pareto e)"
    and "\<forall>i\<in>fst ` set (rule_profile rule). valid_idx (F_pareto e) i"
  shows "\<exists>b. is_robust e rule = Inr b"
proof -
  from profile_mask_ok [OF assms(3)] obtain msk where
    "profile_mask (if direction e = ''up'' then (\<lambda>a b. a \<ge> b) else (\<lambda>a b. a \<le> b))
          (F_pareto e) (rule_profile rule) (replicate (N e) True) = Inr msk"
    unfolding assms(2) by blast
  moreover from profile_mask_ok [OF assms(3)] obtain base_mask where
    "profile_mask (=) (F_pareto e) (rule_profile rule) (replicate (N e) True) = Inr base_mask"
    unfolding assms(2) by blast
  ultimately show ?thesis
    using assms(1) by (simp add: is_robust_def Let_def)
qed

lemma rules_loop_ok:
  assumes "fitted e" "valid_criteria e P"
  shows "\<exists>st. rules_loop neg_str str_2f e P t kind idxs (seen, rules) = Inr st"
proof (induction idxs arbitrary: seen rules)
  case Nil
  then show ?case by simp
next
  case (Cons idx rest)
  have f: "is_fit e" and n: "N e = length (F_pareto e)"
    using assms(1) by (simp_all add: fitted_def)
  from make_rule_ok [OF assms, of neg_str str_2f t kind idx] obtain rule where
    r: "make_rule neg_str str_2f e P t kind idx = Inr rule"
    and v: "\<forall>i\<in>fst ` set (rule_profile rule). valid_idx (F_pareto e) i"
    by blast
  from is_robust_ok [OF f n v] obtain b where b: "is_robust e rule = Inr b" by blast
  show ?case
    using r b Cons.IH [of seen rules]
      Cons.IH [of "insert (rule_desc rule) seen" "if b then rules @ [rule] else rules"]
    by simp
qed

lemma subsumes_loop_ok:
  "set ks \<subseteq> fst ` set p2 \<Longrightarrow> set ks \<subseteq> fst ` set p1 \<Longrightarrow>
   \<exists>b. subsumes_loop worse p1 p2 ks = Inr b"
proof (induction ks)
  case Nil
  then show ?case by auto
next
  case (Cons k ks)
  have "map_of p2 k \<noteq> None" "map_of p1 k \<noteq> None"
    using Cons.prems by (auto simp: map_of_eq_None_iff)
  then obtain v2 v1 where "map_of p2 k = Some v2" "map_of p1 k = Some v1"
    by auto
  with Cons show ?case by auto
qed

lemma subsumes_ok:
  assumes "is_fit e" "direction e = ''up'' \<or> direction e = ''down''"
  shows "\<exists>b. subsumes e r1 r2 = Inr b"
proof (cases "rule_concl r1 \<noteq> rule_concl r2
    \<or> \<not> set (map fst (rule_profile r2)) \<subseteq> set (map fst (rule_profile r1))")
  case True
  with assms(1) show ?thesis by (auto simp: subsumes_def Let_def)
next
  case False
  then have k: "set (map fst (rule_profile r2)) \<subseteq> fst ` set (rule_profile r1)"
    and k2: "set (map fst (rule_profile r2)) \<subseteq> fst ` set (rule_profile r2)"
    by auto
  from subsumes_loop_ok [OF k2 k] False assms show ?thesis
    by (auto simp: subsumes_def Let_def)
qed

lemma any_subsumes_ok:
  assumes "is_fit e" "direction e = ''up'' \<or> direction e = ''down''"
  shows "\<exists>b. any_subsumes e r1 rules = Inr b"
proof (induction rules)
  case Nil
  then show ?case by auto
next
  case (Cons r2 rules)
  from subsumes_ok [OF assms, of r1 r2] obtain b where "subsumes e r1 r2 = Inr b" by blast
  with Cons show ?case by auto
qed

lemma minimal_loop_ok:
  assumes "is_fit e" "direction e = ''up'' \<or> direction e = ''down''"
  shows "\<exists>out. minimal_loop e rules rs acc = Inr out"
proof (induction rs arbitrary: acc)
  case Nil
  then show ?case by simp
next
  case (Cons r1 rs)
  from any_subsumes_ok [OF assms, of r1 rules] obtain b where
    "any_subsumes e r1 rules = Inr b" by blast
  with Cons.IH [of "if \<not> b then acc @ [r1] else acc"] show ?case by auto
qed

text \<open>The call returns: on a configured engine with valid criteria, and a direction among
  "up" and "down" when the minimality filter runs, no branch of the rule induction fails.\<close>
lemma induce_returns:
  assumes "fitted e"
    and "valid_criteria e (case crit of None \<Rightarrow> criteria e
                           | Some c \<Rightarrow> if c = [] then criteria e else c)"
    and "minimal \<longrightarrow> direction e = ''up'' \<or> direction e = ''down''"
  shows "\<exists>rules. induce_decision_rules neg_str str_2f e crit t minimal = Inr rules"
proof -
  let ?P = "case crit of None \<Rightarrow> criteria e | Some c \<Rightarrow> if c = [] then criteria e else c"
  have f: "is_fit e" using assms(1) by (simp add: fitted_def)
  have "\<exists>lower. (if direction e = ''up'' then lower_approx_up e ?P t
      else lower_approx_down e ?P t) = Inr lower"
    by (simp add: lower_approx_up_eq [OF assms(1,2)] lower_approx_down_eq [OF assms(1,2)])
  then obtain lower where lo: "(if direction e = ''up'' then lower_approx_up e ?P t
      else lower_approx_down e ?P t) = Inr lower" ..
  have "\<exists>upper. (if direction e = ''up'' then upper_approx_up e ?P t
      else upper_approx_down e ?P t) = Inr upper"
    by (simp add: upper_approx_up_eq [OF assms(1,2)] upper_approx_down_eq [OF assms(1,2)])
  then obtain upper where up: "(if direction e = ''up'' then upper_approx_up e ?P t
      else upper_approx_down e ?P t) = Inr upper" ..
  from rules_loop_ok [OF assms(1,2)] obtain st1 where
    l1: "rules_loop neg_str str_2f e ?P t ''certain'' (np_where lower) ({}, []) = Inr st1"
    by blast
  obtain seen1 rules1 where st1: "st1 = (seen1, rules1)" by (cases st1)
  from rules_loop_ok [OF assms(1,2)] obtain st2 where
    l2: "rules_loop neg_str str_2f e ?P t ''possible''
        (np_where (map2 (\<lambda>u l. u \<and> \<not> l) upper lower)) (seen1, rules1) = Inr st2"
    by blast
  obtain seen rules where st2: "st2 = (seen, rules)" by (cases st2)
  have "\<exists>out. (if minimal then minimal_loop e rules rules [] else Inr rules) = Inr out"
    using minimal_loop_ok [OF f, of rules rules "[]"] assms(3) by auto
  then show ?thesis
    using f lo up l1 l2 st1 st2
    by (auto simp: induce_decision_rules_def Let_def)
qed

lemma four_objects_fit:
  "fit DRSA_init (Some [[1, 2], [2, 1], [3, 3], [0, 0]]) (Some [0, 1]) (Some [2, 2, 2, 1]) ''up''
     = Inr four_objects"
  by (simp add: fit_def DRSA_init_def four_objects_def np_max_def)

lemma four_objects_fitted: "fitted four_objects"
  using fit_fitted [OF four_objects_fit] by (simp add: n_var_def)

lemma four_objects_valid: "valid_criteria four_objects (criteria four_objects)"
  by (simp add: valid_criteria_def valid_idx_def four_objects_def n_var_def)

lemma four_objects_rules:
  "induce_decision_rules (\<lambda>v. str_int (- v)) (\<lambda>_. ''?'') four_objects None 2 True
     = Inr [rule_a, rule_b]"
  by code_simp

subsection \<open>Claims on the induced rules\<close>

text \<open>Claim C7. Every rule returned by \<^verbatim>\<open>induce_decision_rules\<close> (with or without the
  minimality filter) has an object of the objective matrix that meets every profiled
  criterion by exact equality and satisfies the premise: the set of exact matches,
  intersected with the premise-satisfying set, is non-empty.\<close>
theorem rules_robust:
  assumes "induce_decision_rules neg_str str_2f e crit t minimal = Inr rules"
    and "N e = length (F_pareto e)" and "r \<in> set rules"
  shows "\<exists>x<N e. (\<forall>(i, v)\<in>set (rule_profile r). item (F_pareto e) x i = v)
     \<and> (\<forall>(i, v)\<in>set (rule_profile r).
          if direction e = ''up'' then item (F_pareto e) x i \<ge> v else item (F_pareto e) x i \<le> v)"
proof -
  from induce_rules_shape [OF assms(1)] obtain all_rules where
    a: "\<forall>r\<in>set all_rules. is_robust e r = Inr True"
    and b: "rules = (if minimal
        then filter (\<lambda>r1. any_subsumes e r1 all_rules = Inr False) all_rules else all_rules)"
    by blast
  from b assms(3) have "r \<in> set all_rules" by (auto split: if_splits)
  with a have "is_robust e r = Inr True" by blast
  from is_robust_True [OF this assms(2)] show ?thesis .
qed

text \<open>The theorem at the second rule induced on the engine with four objects.\<close>
theorem rules_robust_witness:
  "induce_decision_rules (\<lambda>v. str_int (- v)) (\<lambda>_. ''?'') four_objects None 2 True
       = Inr [rule_a, rule_b]
     \<and> N four_objects = length (F_pareto four_objects)
     \<and> rule_b \<in> set [rule_a, rule_b]
     \<and> (\<exists>x<N four_objects.
          (\<forall>(i, v)\<in>set (rule_profile rule_b). item (F_pareto four_objects) x i = v)
        \<and> (\<forall>(i, v)\<in>set (rule_profile rule_b).
             if direction four_objects = ''up'' then item (F_pareto four_objects) x i \<ge> v
             else item (F_pareto four_objects) x i \<le> v))"
proof -
  have n: "N four_objects = length (F_pareto four_objects)"
    by (simp add: four_objects_def)
  have b: "rule_b \<in> set [rule_a, rule_b]" by simp
  from rules_robust [OF four_objects_rules n b] four_objects_rules n b
  show ?thesis by (intro conjI) assumption+
qed

text \<open>Claim C6. With \<^verbatim>\<open>minimal=True\<close>, for two rules at different positions of the
  returned list with the same conclusion text, it is not the case that the second one's
  profile uses a subset of the first one's criteria with, for direction "up",
  \<open>profile2[k] \<le> profile1[k]\<close> on every criterion \<open>k\<close> of the second (\<open>\<ge>\<close> for
  "down").\<close>
theorem minimal_rules_not_subsumed:
  assumes "induce_decision_rules neg_str str_2f e crit t True = Inr rules"
    and "direction e = ''up'' \<or> direction e = ''down''"
    and "i < length rules" "j < length rules" "i \<noteq> j"
    and "rule_concl (rules ! i) = rule_concl (rules ! j)"
  shows "\<not> (fst ` set (rule_profile (rules ! j)) \<subseteq> fst ` set (rule_profile (rules ! i))
     \<and> (\<forall>k\<in>fst ` set (rule_profile (rules ! j)).
          \<exists>v2 v1. map_of (rule_profile (rules ! j)) k = Some v2
                \<and> map_of (rule_profile (rules ! i)) k = Some v1
                \<and> (if direction e = ''up'' then v2 \<le> v1 else v2 \<ge> v1)))"
proof
  let ?r1 = "rules ! i" and ?r2 = "rules ! j"
  let ?p1 = "rule_profile ?r1" and ?p2 = "rule_profile ?r2"
  assume s: "fst ` set ?p2 \<subseteq> fst ` set ?p1
     \<and> (\<forall>k\<in>fst ` set ?p2. \<exists>v2 v1. map_of ?p2 k = Some v2 \<and> map_of ?p1 k = Some v1
          \<and> (if direction e = ''up'' then v2 \<le> v1 else v2 \<ge> v1))"
  from induce_rules_shape [OF assms(1)] obtain all_rules where
    f: "is_fit e"
    and d: "distinct (map rule_desc all_rules)"
    and b: "rules = filter (\<lambda>r1. any_subsumes e r1 all_rules = Inr False) all_rules"
    by auto
  have dr: "distinct (map rule_desc rules)"
    unfolding b using d by (simp add: distinct_map_filter)
  have "map rule_desc rules ! i \<noteq> map rule_desc rules ! j"
    using dr assms(3-5) nth_eq_iff_index_eq [of "map rule_desc rules" i j] by simp
  then have ne: "rule_ne ?r2 ?r1"
    using assms(3,4) rule_ne_desc [of ?r2 ?r1] by simp
  have m1: "?r1 \<in> set rules" and m2: "?r2 \<in> set rules"
    using assms(3,4) by simp_all
  from m1 have a: "any_subsumes e ?r1 all_rules = Inr False"
    unfolding b by simp
  from m2 have "?r2 \<in> set all_rules"
    unfolding b by simp
  from any_subsumes_False [OF a this ne] have sf: "subsumes e ?r1 ?r2 = Inr False" .
  have keys: "set (map fst ?p2) \<subseteq> set (map fst ?p1)"
    using s by simp
  show False
  proof (cases "direction e = ''up''")
    case True
    with sf f assms(6) keys
    have "subsumes_loop (\<lambda>a b. a > b) ?p1 ?p2 (map fst ?p2) = Inr False"
      by (simp add: subsumes_def Let_def)
    from subsumes_loop_False [OF this] obtain k v2 v1 where
      "k \<in> fst ` set ?p2" "map_of ?p2 k = Some v2" "map_of ?p1 k = Some v1" "v2 > v1"
      by auto
    with s True show False by fastforce
  next
    case False
    with assms(2) have dn: "direction e = ''down''" by simp
    with sf f assms(6) keys False
    have "subsumes_loop (\<lambda>a b. a < b) ?p1 ?p2 (map fst ?p2) = Inr False"
      by (simp add: subsumes_def Let_def)
    from subsumes_loop_False [OF this] obtain k v2 v1 where
      "k \<in> fst ` set ?p2" "map_of ?p2 k = Some v2" "map_of ?p1 k = Some v1" "v2 < v1"
      by auto
    with s False show False by fastforce
  qed
qed

text \<open>The theorem at the two rules returned on the engine with four objects.\<close>
theorem minimal_rules_not_subsumed_witness:
  "induce_decision_rules (\<lambda>v. str_int (- v)) (\<lambda>_. ''?'') four_objects None 2 True
       = Inr [rule_a, rule_b]
     \<and> (direction four_objects = ''up'' \<or> direction four_objects = ''down'')
     \<and> (0 :: nat) < length [rule_a, rule_b] \<and> (1 :: nat) < length [rule_a, rule_b]
     \<and> (0 :: nat) \<noteq> 1
     \<and> rule_concl ([rule_a, rule_b] ! 0) = rule_concl ([rule_a, rule_b] ! 1)
     \<and> \<not> (fst ` set (rule_profile ([rule_a, rule_b] ! 1))
            \<subseteq> fst ` set (rule_profile ([rule_a, rule_b] ! 0))
          \<and> (\<forall>k\<in>fst ` set (rule_profile ([rule_a, rule_b] ! 1)).
               \<exists>v2 v1. map_of (rule_profile ([rule_a, rule_b] ! 1)) k = Some v2
                 \<and> map_of (rule_profile ([rule_a, rule_b] ! 0)) k = Some v1
                 \<and> (if direction four_objects = ''up'' then v2 \<le> v1 else v2 \<ge> v1)))"
proof -
  have d: "direction four_objects = ''up'' \<or> direction four_objects = ''down''"
    by (simp add: four_objects_def)
  have l0: "(0 :: nat) < length [rule_a, rule_b]" and l1: "(1 :: nat) < length [rule_a, rule_b]"
    and ne: "(0 :: nat) \<noteq> 1"
    by simp_all
  have c: "rule_concl ([rule_a, rule_b] ! 0) = rule_concl ([rule_a, rule_b] ! 1)"
    by (simp add: rule_concl_def rule_a_def rule_b_def)
  from minimal_rules_not_subsumed [OF four_objects_rules d l0 l1 ne c]
    four_objects_rules d l0 l1 ne c
  show ?thesis by (intro conjI) assumption+
qed

section \<open>Reducts\<close>

lemma combinations_set:
  "set (combinations xs r) = {ys. subseq ys xs \<and> length ys = r}"
proof (induction xs r rule: combinations.induct)
  case (1 xs)
  then show ?case by auto
next
  case (2 r)
  then show ?case by auto
next
  case (3 x xs r)
  show ?case
  proof (rule set_eqI)
    fix ys
    show "ys \<in> set (combinations (x # xs) (Suc r))
        \<longleftrightarrow> ys \<in> {ys. subseq ys (x # xs) \<and> length ys = Suc r}"
    proof (cases ys)
      case Nil
      then show ?thesis using 3 by auto
    next
      case (Cons y ys')
      show ?thesis
      proof (cases "y = x")
        case True
        have "subseq (x # ys') xs \<Longrightarrow> subseq ys' xs" by (rule subseq_Cons')
        then show ?thesis using 3 Cons True by auto
      next
        case False
        then show ?thesis using 3 Cons by auto
      qed
    qed
  qed
qed

lemma combinations_full: "combinations xs (length xs) = [xs]"
proof (induction xs)
  case Nil
  then show ?case by simp
next
  case (Cons x xs)
  have "set (combinations xs (Suc (length xs))) = {}"
    unfolding combinations_set using list_emb_length [of "(=)" _ xs] by fastforce
  then show ?case using Cons by simp
qed

lemma subseq_remdups: "subseq (remdups xs) xs"
  by (induction xs) auto

lemma consistent_set: "set P = set Q \<Longrightarrow> consistent e P = consistent e Q"
  by (simp add: consistent_def boundary_def dom_ge_def dom_le_def fun_eq_iff)

lemma valid_criteria_set: "set P \<subseteq> set Q \<Longrightarrow> valid_criteria e Q \<Longrightarrow> valid_criteria e P"
  by (auto simp: valid_criteria_def)

lemma quality_set:
  assumes "fitted e" "valid_criteria e Q" "set P = set Q"
  shows "quality e P = quality e Q"
proof -
  have "valid_criteria e P"
    using assms(2,3) by (simp add: valid_criteria_def)
  then show ?thesis
    using assms by (simp add: quality_eq consistent_set [OF assms(3)])
qed

lemma quality_returns:
  assumes "fitted e" "valid_criteria e P"
  shows "\<exists>q. quality e P = Inr q"
  by (simp add: quality_eq [OF assms])

lemma subset_loop_ok:
  "\<forall>c\<in>set cs. \<exists>q. quality e c = Inr q \<Longrightarrow> \<exists>res. subset_loop e fq cs acc = Inr res"
proof (induction cs arbitrary: acc)
  case Nil
  then show ?case by simp
next
  case (Cons c cs)
  from Cons.prems obtain q where q: "quality e c = Inr q" by auto
  have r: "\<forall>c\<in>set cs. \<exists>q. quality e c = Inr q" using Cons.prems by simp
  show ?case
    using q Cons.IH [OF r, of acc] Cons.IH [OF r, of "acc @ [c]"] by simp
qed

lemma subset_loop_step:
  assumes "subset_loop e fq (c # cs) acc = Inr res"
  shows "\<exists>q. quality e c = Inr q
     \<and> subset_loop e fq cs
          (if q = fq \<and> \<not> list_ex (\<lambda>red. set red \<subseteq> set c) acc then acc @ [c] else acc)
        = Inr res"
  using assms by (auto split: sum.splits if_splits)

lemma subset_loop_inv:
  "subset_loop e fq cs acc = Inr res \<Longrightarrow>
   \<exists>new. res = acc @ new \<and> set new \<subseteq> set cs \<and> (\<forall>S\<in>set new. quality e S = Inr fq)"
proof (induction cs arbitrary: acc)
  case Nil
  then show ?case by simp
next
  case (Cons c cs)
  from subset_loop_step [OF Cons.prems] obtain q where
    q: "quality e c = Inr q"
    and l: "subset_loop e fq cs
          (if q = fq \<and> \<not> list_ex (\<lambda>red. set red \<subseteq> set c) acc then acc @ [c] else acc)
        = Inr res"
    by blast
  from Cons.IH [OF l] obtain new where
    n: "res = (if q = fq \<and> \<not> list_ex (\<lambda>red. set red \<subseteq> set c) acc then acc @ [c] else acc) @ new"
      "set new \<subseteq> set cs" "\<forall>S\<in>set new. quality e S = Inr fq"
    by blast
  show ?case
  proof (cases "q = fq \<and> \<not> list_ex (\<lambda>red. set red \<subseteq> set c) acc")
    case True
    with n q have "res = acc @ (c # new)" "set (c # new) \<subseteq> set (c # cs)"
        "\<forall>S\<in>set (c # new). quality e S = Inr fq"
      by auto
    then show ?thesis by blast
  next
    case False
    with n have "res = acc @ new" "set new \<subseteq> set (c # cs)" by auto
    with n(3) show ?thesis by blast
  qed
qed

lemma subset_loop_order:
  "subset_loop e fq cs acc = Inr res \<Longrightarrow>
   (\<forall>i j. i < j \<and> j < length acc \<longrightarrow> \<not> set (acc ! i) \<subseteq> set (acc ! j)) \<Longrightarrow>
   (\<forall>i j. i < j \<and> j < length res \<longrightarrow> \<not> set (res ! i) \<subseteq> set (res ! j))"
proof (induction cs arbitrary: acc)
  case Nil
  then show ?case by simp
next
  case (Cons c cs)
  from subset_loop_step [OF Cons.prems(1)] obtain q where
    l: "subset_loop e fq cs
          (if q = fq \<and> \<not> list_ex (\<lambda>red. set red \<subseteq> set c) acc then acc @ [c] else acc)
        = Inr res"
    by blast
  show ?case
  proof (cases "q = fq \<and> \<not> list_ex (\<lambda>red. set red \<subseteq> set c) acc")
    case True
    then have no: "\<forall>red\<in>set acc. \<not> set red \<subseteq> set c"
      by (simp add: list_ex_iff)
    have "\<forall>i j. i < j \<and> j < length (acc @ [c])
        \<longrightarrow> \<not> set ((acc @ [c]) ! i) \<subseteq> set ((acc @ [c]) ! j)"
    proof (intro allI impI)
      fix i j
      assume ij: "i < j \<and> j < length (acc @ [c])"
      show "\<not> set ((acc @ [c]) ! i) \<subseteq> set ((acc @ [c]) ! j)"
      proof (cases "j < length acc")
        case True
        with ij Cons.prems(2) show ?thesis by (simp add: nth_append)
      next
        case False
        with ij have j: "j = length acc" and i: "i < length acc" by simp_all
        from i no have "\<not> set (acc ! i) \<subseteq> set c" by simp
        with i j show ?thesis by (simp add: nth_append)
      qed
    qed
    with Cons.IH [of "acc @ [c]"] l True show ?thesis by simp
  next
    case False
    with Cons.IH [of acc] l Cons.prems(2) show ?thesis by simp
  qed
qed

lemma subset_loop_cover:
  "subset_loop e fq cs acc = Inr res \<Longrightarrow> c \<in> set cs \<Longrightarrow> quality e c = Inr fq \<Longrightarrow>
   \<exists>red\<in>set res. set red \<subseteq> set c"
proof (induction cs arbitrary: acc)
  case Nil
  then show ?case by simp
next
  case (Cons c' cs)
  from subset_loop_step [OF Cons.prems(1)] obtain q where
    q: "quality e c' = Inr q"
    and l: "subset_loop e fq cs
          (if q = fq \<and> \<not> list_ex (\<lambda>red. set red \<subseteq> set c') acc then acc @ [c'] else acc)
        = Inr res"
    by blast
  show ?case
  proof (cases "c = c'")
    case True
    with q Cons.prems(3) have qf: "q = fq" by simp
    from subset_loop_inv [OF l] have sub:
      "set (if q = fq \<and> \<not> list_ex (\<lambda>red. set red \<subseteq> set c') acc then acc @ [c'] else acc)
        \<subseteq> set res"
      by auto
    show ?thesis
    proof (cases "list_ex (\<lambda>red. set red \<subseteq> set c') acc")
      case True
      then obtain red where "red \<in> set acc" "set red \<subseteq> set c'"
        by (auto simp: list_ex_iff)
      with sub True \<open>c = c'\<close> show ?thesis by auto
    next
      case False
      with sub qf have "c' \<in> set res" by simp
      with \<open>c = c'\<close> show ?thesis by blast
    qed
  next
    case False
    with Cons.prems(2) have "c \<in> set cs" by simp
    from Cons.IH [OF l this Cons.prems(3)] show ?thesis .
  qed
qed

lemma subset_loop_empty:
  "subset_loop e fq cs [] = Inr [] \<Longrightarrow> c \<in> set cs \<Longrightarrow> quality e c \<noteq> Inr fq"
  using subset_loop_cover [of e fq cs "[]" "[]" c] by auto

lemma size_loop_ok:
  "\<forall>r\<in>set rs. \<forall>c\<in>set (combinations (criteria e) r). \<exists>q. quality e c = Inr q \<Longrightarrow>
   \<exists>res. size_loop e fq rs acc = Inr res"
proof (induction rs arbitrary: acc)
  case Nil
  then show ?case by simp
next
  case (Cons r rs)
  from Cons.prems have "\<forall>c\<in>set (combinations (criteria e) r). \<exists>q. quality e c = Inr q"
    by simp
  from subset_loop_ok [OF this] obtain res' where
    "subset_loop e fq (combinations (criteria e) r) acc = Inr res'" by blast
  moreover have "\<exists>res. size_loop e fq rs res' = Inr res"
    using Cons.IH [of res'] Cons.prems by simp
  ultimately show ?case by auto
qed

lemma size_loop_none:
  "size_loop e fq rs [] = Inr [] \<Longrightarrow> r \<in> set rs \<Longrightarrow>
   subset_loop e fq (combinations (criteria e) r) [] = Inr []"
proof (induction rs)
  case Nil
  then show ?case by simp
next
  case (Cons r' rs)
  from Cons.prems(1) have a: "subset_loop e fq (combinations (criteria e) r') [] = Inr []"
    and b: "size_loop e fq rs [] = Inr []"
    by (auto split: sum.splits if_splits)
  show ?case
  proof (cases "r = r'")
    case True
    with a show ?thesis by simp
  next
    case False
    with Cons.prems(2) have "r \<in> set rs" by simp
    from Cons.IH [OF b this] show ?thesis .
  qed
qed

lemma size_loop_hit:
  "size_loop e fq rs [] = Inr res \<Longrightarrow> res \<noteq> [] \<Longrightarrow> sorted_wrt (<) rs \<Longrightarrow>
   \<exists>r\<in>set rs. subset_loop e fq (combinations (criteria e) r) [] = Inr res
     \<and> (\<forall>r'\<in>set rs. r' < r \<longrightarrow> subset_loop e fq (combinations (criteria e) r') [] = Inr [])"
proof (induction rs)
  case Nil
  then show ?case by simp
next
  case (Cons r0 rs)
  from Cons.prems(1) obtain res' where
    a: "subset_loop e fq (combinations (criteria e) r0) [] = Inr res'"
    by (auto split: sum.splits)
  from Cons.prems(3) have gt: "\<forall>x\<in>set rs. r0 < x" and so: "sorted_wrt (<) rs"
    by simp_all
  show ?case
  proof (cases "res' = []")
    case True
    with Cons.prems(1) a have "size_loop e fq rs [] = Inr res" by simp
    from Cons.IH [OF this Cons.prems(2) so] obtain r where
      r: "r \<in> set rs" "subset_loop e fq (combinations (criteria e) r) [] = Inr res"
        "\<forall>r'\<in>set rs. r' < r \<longrightarrow> subset_loop e fq (combinations (criteria e) r') [] = Inr []"
      by blast
    from r(3) a True have "\<forall>r'\<in>set (r0 # rs). r' < r
        \<longrightarrow> subset_loop e fq (combinations (criteria e) r') [] = Inr []"
      by simp
    with r(1,2) show ?thesis by auto
  next
    case False
    with Cons.prems(1) a have "res = res'" by simp
    with a gt show ?thesis by auto
  qed
qed

lemma combinations_elem:
  assumes "c \<in> set (combinations xs r)"
  shows "subseq c xs" "length c = r" "set c \<subseteq> set xs"
proof -
  from assms show s: "subseq c xs" and "length c = r"
    by (simp_all add: combinations_set)
  from s show "set c \<subseteq> set xs"
    using list_emb_set [of "(=)" c xs] by auto
qed

lemma find_reducts_unfold:
  assumes "fitted e" "valid_criteria e (criteria e)"
  shows "\<exists>fq res. quality e (criteria e) = Inr fq
     \<and> size_loop e fq [1..<length (criteria e) + 1] [] = Inr res
     \<and> find_reducts e = Inr (if res = [] then [criteria e] else res)"
proof -
  have f: "is_fit e" using assms(1) by (simp add: fitted_def)
  from quality_returns [OF assms] obtain fq where fq: "quality e (criteria e) = Inr fq" ..
  have "\<forall>r\<in>set [1..<length (criteria e) + 1].
      \<forall>c\<in>set (combinations (criteria e) r). \<exists>q. quality e c = Inr q"
  proof (intro ballI)
    fix r c
    assume "c \<in> set (combinations (criteria e) r)"
    then have "set c \<subseteq> set (criteria e)" by (rule combinations_elem)
    then have "valid_criteria e c" using assms(2) by (rule valid_criteria_set)
    with assms(1) show "\<exists>q. quality e c = Inr q" by (rule quality_returns)
  qed
  from size_loop_ok [OF this] obtain res where
    "size_loop e fq [1..<length (criteria e) + 1] [] = Inr res" by blast
  with fq f show ?thesis by (simp add: find_reducts_def)
qed

lemma hit_card:
  assumes "fitted e" "valid_criteria e (criteria e)"
    and "S \<in> set (combinations (criteria e) r)" "quality e S = Inr fq" "0 < r"
    and "\<forall>r'. 0 < r' \<and> r' < r
          \<longrightarrow> subset_loop e fq (combinations (criteria e) r') [] = Inr []"
  shows "card (set S) = r"
proof (rule ccontr)
  assume ne: "card (set S) \<noteq> r"
  have s: "subseq S (criteria e)" and l: "length S = r" and sub: "set S \<subseteq> set (criteria e)"
    using combinations_elem [OF assms(3)] by simp_all
  let ?k = "card (set S)"
  have "?k \<le> r" using card_length [of S] l by simp
  with ne have lt: "?k < r" by simp
  have "S \<noteq> []" using l assms(5) by auto
  then have pos: "0 < ?k" by (simp add: card_gt_0_iff)
  have "subseq (remdups S) (criteria e)"
    using subseq_remdups [of S] s by (rule subseq_order.trans)
  then have mem: "remdups S \<in> set (combinations (criteria e) ?k)"
    by (simp add: combinations_set length_remdups_card_conv)
  have v: "valid_criteria e S" using sub assms(2) by (rule valid_criteria_set)
  have "quality e (remdups S) = quality e S"
    by (rule quality_set [OF assms(1) v]) simp
  with assms(4) have q: "quality e (remdups S) = Inr fq" by simp
  from assms(6) pos lt
  have "subset_loop e fq (combinations (criteria e) ?k) [] = Inr []" by blast
  from subset_loop_empty [OF this mem] q show False by simp
qed

lemma both_needed_fit:
  "fit DRSA_init (Some [[1, 3], [2, 1], [0, 4]]) (Some [0, 1]) (Some [2, 1, 1]) ''up''
     = Inr both_needed"
  by (simp add: fit_def DRSA_init_def both_needed_def np_max_def)

lemma both_needed_fitted: "fitted both_needed"
  using fit_fitted [OF both_needed_fit] by (simp add: n_var_def)

lemma both_needed_valid: "valid_criteria both_needed (criteria both_needed)"
  by (simp add: valid_criteria_def valid_idx_def both_needed_def n_var_def)

lemma both_needed_quality:
  "quality both_needed [0] = Inr (1 / 3)" "quality both_needed [1] = Inr (1 / 3)"
  "quality both_needed [0, 1] = Inr 1"
  by code_simp+

lemma both_needed_proper:
  assumes "S \<noteq> []" "set S \<subset> set (criteria both_needed)"
  shows "quality both_needed S \<noteq> Inr 1"
proof -
  have c: "set (criteria both_needed) = {0, 1}" by (simp add: both_needed_def)
  from assms(1) obtain x where "x \<in> set S" by (cases S) auto
  with assms(2) have "set S = {0} \<or> set S = {1}"
    unfolding c by blast
  then have "set S = set [0] \<or> set S = set [1]" by simp
  then show ?thesis
  proof
    assume s: "set S = set [0]"
    have "valid_criteria both_needed [0]"
      by (simp add: valid_criteria_def valid_idx_def both_needed_def n_var_def)
    from quality_set [OF both_needed_fitted this s] show ?thesis
      by (simp add: both_needed_quality)
  next
    assume s: "set S = set [1]"
    have "valid_criteria both_needed [1]"
      by (simp add: valid_criteria_def valid_idx_def both_needed_def n_var_def)
    from quality_set [OF both_needed_fitted this s] show ?thesis
      by (simp add: both_needed_quality)
  qed
qed

subsection \<open>Claim on the reducts\<close>

text \<open>Claim C2. On a configured engine \<^verbatim>\<open>find_reducts()\<close> returns a non-empty list;
  every returned subset has the quality of the full criteria tuple; no returned subset is
  contained, as a set, in another one at a different position; and if no non-empty proper
  subset of the criteria has the full quality, the list holds one reduct, whose set is the
  full criteria set, and which is the criteria tuple itself when its indices are unique.\<close>
theorem find_reducts_valid:
  assumes "fitted e" "valid_criteria e (criteria e)"
  shows "\<exists>rs fq. find_reducts e = Inr rs \<and> quality e (criteria e) = Inr fq \<and> rs \<noteq> []
     \<and> (\<forall>S\<in>set rs. quality e S = Inr fq)
     \<and> (\<forall>i<length rs. \<forall>j<length rs. i \<noteq> j \<longrightarrow> \<not> set (rs ! i) \<subseteq> set (rs ! j))
     \<and> ((\<forall>S. S \<noteq> [] \<and> set S \<subset> set (criteria e) \<longrightarrow> quality e S \<noteq> Inr fq)
          \<longrightarrow> (\<exists>S. rs = [S] \<and> set S = set (criteria e))
            \<and> (distinct (criteria e) \<longrightarrow> rs = [criteria e]))"
proof -
  let ?c = "criteria e"
  from find_reducts_unfold [OF assms] obtain fq res where
    fq: "quality e ?c = Inr fq"
    and sl: "size_loop e fq [1..<length ?c + 1] [] = Inr res"
    and fr: "find_reducts e = Inr (if res = [] then [?c] else res)"
    by blast
  show ?thesis
  proof (cases "res = []")
    case True
    have "?c = []"
    proof (rule ccontr)
      assume "?c \<noteq> []"
      then have "length ?c \<in> set [1..<length ?c + 1]" by (cases ?c) auto
      from size_loop_none [OF sl [unfolded True] this]
      have "subset_loop e fq [?c] [] = Inr []" by (simp add: combinations_full)
      from subset_loop_empty [OF this, of ?c] fq show False by simp
    qed
    with True fr fq show ?thesis by auto
  next
    case False
    from size_loop_hit [OF sl False sorted_wrt_upt] obtain r where
      r: "r \<in> set [1..<length ?c + 1]"
      and hit: "subset_loop e fq (combinations ?c r) [] = Inr res"
      and low: "\<forall>r'\<in>set [1..<length ?c + 1]. r' < r
          \<longrightarrow> subset_loop e fq (combinations ?c r') [] = Inr []"
      by blast
    have rpos: "0 < r" using r by auto
    have low': "\<forall>r'. 0 < r' \<and> r' < r \<longrightarrow> subset_loop e fq (combinations ?c r') [] = Inr []"
      using low r by auto
    from subset_loop_inv [OF hit] have
      mem: "set res \<subseteq> set (combinations ?c r)"
      and q: "\<forall>S\<in>set res. quality e S = Inr fq"
      by auto
    have order: "\<forall>i j. i < j \<and> j < length res \<longrightarrow> \<not> set (res ! i) \<subseteq> set (res ! j)"
      using subset_loop_order [OF hit] by simp
    have card: "\<forall>S\<in>set res. card (set S) = r"
    proof
      fix S assume S: "S \<in> set res"
      with mem have "S \<in> set (combinations ?c r)" by blast
      from hit_card [OF assms this _ rpos low'] q S show "card (set S) = r" by blast
    qed
    have pair: "\<forall>i<length res. \<forall>j<length res. i \<noteq> j \<longrightarrow> \<not> set (res ! i) \<subseteq> set (res ! j)"
    proof (intro allI impI)
      fix i j
      assume i: "i < length res" and j: "j < length res" and ij: "i \<noteq> j"
      show "\<not> set (res ! i) \<subseteq> set (res ! j)"
      proof (cases "i < j")
        case True
        with order j show ?thesis by blast
      next
        case False
        with ij have ji: "j < i" by simp
        show ?thesis
        proof
          assume sub: "set (res ! i) \<subseteq> set (res ! j)"
          have "card (set (res ! i)) = card (set (res ! j))"
            using card i j by simp
          with sub have "set (res ! i) = set (res ! j)"
            by (simp add: card_subset_eq)
          with order ji i show False by blast
        qed
      qed
    qed
    have sole: "(\<exists>S. res = [S] \<and> set S = set ?c) \<and> (distinct ?c \<longrightarrow> res = [?c])"
      if H: "\<forall>S. S \<noteq> [] \<and> set S \<subset> set ?c \<longrightarrow> quality e S \<noteq> Inr fq"
    proof -
      have full: "\<forall>S\<in>set res. set S = set ?c"
      proof
        fix S assume S: "S \<in> set res"
        with mem have c: "S \<in> set (combinations ?c r)" by blast
        have "S \<noteq> []" using combinations_elem(2) [OF c] rpos by auto
        moreover have "set S \<subseteq> set ?c" using c by (rule combinations_elem)
        moreover have "quality e S = Inr fq" using q S by blast
        ultimately show "set S = set ?c" using H by blast
      qed
      have "length res = 1"
      proof (rule ccontr)
        assume "length res \<noteq> 1"
        with False have two: "1 < length res" by (cases res) auto
        then have l0: "0 < length res" by (rule less_trans [OF zero_less_one])
        have "res ! 0 \<in> set res" "res ! 1 \<in> set res"
          by (rule nth_mem [OF l0], rule nth_mem [OF two])
        then have "set (res ! 0) = set ?c" "set (res ! 1) = set ?c"
          using full by blast+
        with order two show False by force
      qed
      then obtain S where S: "res = [S]" by (cases res) auto
      with full have set: "set S = set ?c" by simp
      have "distinct ?c \<longrightarrow> S = ?c"
      proof
        assume d: "distinct ?c"
        from S mem have c: "S \<in> set (combinations ?c r)" by simp
        have "card (set S) = r" using card S by simp
        with set d have "length ?c = r" by (simp add: distinct_card)
        with combinations_elem(1,2) [OF c] show "S = ?c"
          by (simp add: subseq_same_length)
      qed
      with S set show ?thesis by simp
    qed
    from False fr fq q pair sole show ?thesis by auto
  qed
qed

text \<open>The theorem at the engine in which both criteria are needed (the sole reduct is the
  criteria tuple) and at the engine with the two reducts \<open>(0,)\<close> and \<open>(1,)\<close>.\<close>
theorem find_reducts_valid_witness:
  "fitted both_needed \<and> valid_criteria both_needed (criteria both_needed)
     \<and> quality both_needed [0] = Inr (1 / 3) \<and> quality both_needed [1] = Inr (1 / 3)
     \<and> quality both_needed (criteria both_needed) = Inr 1
     \<and> find_reducts both_needed = Inr [[0, 1]]
     \<and> fitted four_objects \<and> valid_criteria four_objects (criteria four_objects)
     \<and> find_reducts four_objects = Inr [[0], [1]]
     \<and> (\<exists>rs fq. find_reducts four_objects = Inr rs
          \<and> quality four_objects (criteria four_objects) = Inr fq \<and> rs \<noteq> []
          \<and> (\<forall>S\<in>set rs. quality four_objects S = Inr fq)
          \<and> (\<forall>i<length rs. \<forall>j<length rs. i \<noteq> j \<longrightarrow> \<not> set (rs ! i) \<subseteq> set (rs ! j)))"
proof -
  have c: "criteria both_needed = [0, 1]" by (simp add: both_needed_def)
  have q: "quality both_needed (criteria both_needed) = Inr 1"
    by (simp add: c both_needed_quality)
  from find_reducts_valid [OF both_needed_fitted both_needed_valid] obtain rs fq where
    r: "find_reducts both_needed = Inr rs" "quality both_needed (criteria both_needed) = Inr fq"
      "(\<forall>S. S \<noteq> [] \<and> set S \<subset> set (criteria both_needed) \<longrightarrow> quality both_needed S \<noteq> Inr fq)
         \<longrightarrow> (\<exists>S. rs = [S] \<and> set S = set (criteria both_needed))
           \<and> (distinct (criteria both_needed) \<longrightarrow> rs = [criteria both_needed])"
    by blast
  from r(2) q have "fq = 1" by simp
  with r(3) both_needed_proper have "distinct (criteria both_needed) \<longrightarrow> rs = [criteria both_needed]"
    by blast
  then have "rs = [[0, 1]]" by (simp add: c)
  with r(1) have b: "find_reducts both_needed = Inr [[0, 1]]" by simp
  have f: "find_reducts four_objects = Inr [[0], [1]]" by code_simp
  from find_reducts_valid [OF four_objects_fitted four_objects_valid]
  have "\<exists>rs fq. find_reducts four_objects = Inr rs
          \<and> quality four_objects (criteria four_objects) = Inr fq \<and> rs \<noteq> []
          \<and> (\<forall>S\<in>set rs. quality four_objects S = Inr fq)
          \<and> (\<forall>i<length rs. \<forall>j<length rs. i \<noteq> j \<longrightarrow> \<not> set (rs ! i) \<subseteq> set (rs ! j))"
    by blast
  with both_needed_fitted both_needed_valid both_needed_quality(1,2) q b
    four_objects_fitted four_objects_valid f
  show ?thesis by (intro conjI) assumption+
qed

end
